theory Spec2Isabelle
  imports Complex_Main "HOL-Library.Signed_Division"
begin

section \<open>Kinematic space information: data model\<close>

text \<open>
  The development embeds \<^verbatim>\<open>SpaceInformationKinematic.cpp\<close>. A \<^verbatim>\<open>double\<close> is read as a
  real number (no rounding, no infinities); an \<^verbatim>\<open>int\<close> is a mathematical integer that
  has to stay within the 32-bit range. Every function whose C++ execution can leave
  defined behaviour (a conversion to \<^verbatim>\<open>int\<close> out of range, a division by zero that is
  then converted, a signed overflow, a write through a null pointer) returns an
  option, and \<open>None\<close> stands for such an execution.
\<close>

text \<open>
  Modelled from the spec: the enumeration \<^verbatim>\<open>base::StateComponent::type\<close> and the record
  \<^verbatim>\<open>base::StateComponent\<close> are declared in a header that is not part of the sources at
  hand; the code uses the constants \<^verbatim>\<open>WRAPPING_ANGLE\<close> and \<^verbatim>\<open>QUATERNION\<close> and the fields
  \<^verbatim>\<open>type\<close>, \<^verbatim>\<open>minValue\<close>, \<^verbatim>\<open>maxValue\<close>, \<^verbatim>\<open>resolution\<close>; the spec names the third kind LINEAR.
\<close>

datatype StateComponent_type = LINEAR | WRAPPING_ANGLE | QUATERNION

record StateComponent =
  type :: StateComponent_type
  minValue :: real
  maxValue :: real
  resolution :: real

text \<open>A state is its array \<^verbatim>\<open>values\<close> of \<^verbatim>\<open>m_stateDimension\<close> doubles.\<close>

type_synonym State = "real list"

text \<open>
  The members of the space information the functions below read: the component
  descriptors and the injected validity checker (\<^verbatim>\<open>isValid\<close> forwards to it).
\<close>

record SpaceInformationKinematic =
  m_stateComponent :: "StateComponent list"
  m_stateValidityChecker :: "State \<Rightarrow> bool"

definition m_stateDimension :: "SpaceInformationKinematic \<Rightarrow> nat" where
  "m_stateDimension si = length (m_stateComponent si)"

definition isValid :: "SpaceInformationKinematic \<Rightarrow> State \<Rightarrow> bool" where
  "isValid si s = m_stateValidityChecker si s"

definition INT_MAX :: int where
  "INT_MAX = 2147483647"

definition INT_MIN :: int where
  "INT_MIN = - 2147483648"

text \<open>
  The conversion \<^verbatim>\<open>(int)x\<close> of a double: truncation towards zero, undefined when the
  truncated value is not representable.
\<close>

definition double_to_int :: "real \<Rightarrow> int option" where
  "double_to_int x =
     (let t = (if 0 \<le> x then \<lfloor>x\<rfloor> else \<lceil>x\<rceil>)
      in if INT_MIN \<le> t \<and> t \<le> INT_MAX then Some t else None)"

text \<open>
  Modelled from the spec: \<^verbatim>\<open>angles::shortest_angular_distance\<close> belongs to the external
  \<^verbatim>\<open>angles\<close> library, which is not part of the sources at hand. The spec describes it
  as the shortest signed angular difference from the first angle to the second, in
  the range \<open>(-\<pi>, \<pi>]\<close>.
\<close>

definition shortest_angular_distance :: "real \<Rightarrow> real \<Rightarrow> real" where
  "shortest_angular_distance from to =
     (let d = to - from in d - 2 * pi * of_int \<lceil>(d - pi) / (2 * pi)\<rceil>)"

section \<open>The difference-step primitive\<close>

text \<open>The first loop of \<^verbatim>\<open>findDifferenceStep\<close>: the per-axis differences.\<close>

definition find_diffs :: "SpaceInformationKinematic \<Rightarrow> State \<Rightarrow> State \<Rightarrow> real list" where
  "find_diffs si s1 s2 =
     map (\<lambda>i. if type (m_stateComponent si ! i) = WRAPPING_ANGLE
               then shortest_angular_distance (s1 ! i) (s2 ! i)
               else s2 ! i - s1 ! i)
         [0..<m_stateDimension si]"

text \<open>
  The second loop, over the axes still to visit, with the running maximum \<open>nd\<close>.
  \<^verbatim>\<open>int d = 1 + (int)(fabs(diff[i]) / (factor * m_stateComponent[i].resolution))\<close>:
  a zero divisor gives an infinity or a NaN, whose conversion is undefined, and so is
  the addition when the converted value is \<^verbatim>\<open>INT_MAX\<close>.
\<close>

primrec find_divisions ::
  "SpaceInformationKinematic \<Rightarrow> real list \<Rightarrow> real \<Rightarrow> nat list \<Rightarrow> int \<Rightarrow> int option" where
  "find_divisions si diff factor [] nd = Some nd"
| "find_divisions si diff factor (i # is) nd =
     (let r = factor * resolution (m_stateComponent si ! i)
      in if r = 0 then None
         else (case double_to_int (\<bar>diff ! i\<bar> / r) of
                 None \<Rightarrow> None
               | Some t \<Rightarrow>
                   if t = INT_MAX then None
                   else (let d = 1 + t
                         in find_divisions si diff factor is (if nd < d then d else nd))))"

definition findDifferenceStep ::
  "SpaceInformationKinematic \<Rightarrow> State \<Rightarrow> State \<Rightarrow> real \<Rightarrow> (int \<times> real list) option" where
  "findDifferenceStep si s1 s2 factor =
     (let diff = find_diffs si s1 s2
      in case find_divisions si diff factor [0..<m_stateDimension si] 1 of
           None \<Rightarrow> None
         | Some nd \<Rightarrow> Some (nd, map (\<lambda>x. x / real_of_int nd) diff))"

text \<open>
  The difference-step primitive as the specification words it: the per-axis
  difference, the subdivision count \<open>max(1, max_i (1 + \<lfloor>|diff[i]| / (\<rho> \<sqdot> resolution[i])\<rfloor>))\<close>
  and the step \<open>diff[i] / nd\<close>.
\<close>

definition spec_diff :: "SpaceInformationKinematic \<Rightarrow> State \<Rightarrow> State \<Rightarrow> nat \<Rightarrow> real" where
  "spec_diff si s1 s2 i =
     (if type (m_stateComponent si ! i) = WRAPPING_ANGLE
      then shortest_angular_distance (s1 ! i) (s2 ! i)
      else s2 ! i - s1 ! i)"

definition spec_nd :: "SpaceInformationKinematic \<Rightarrow> State \<Rightarrow> State \<Rightarrow> real \<Rightarrow> int" where
  "spec_nd si s1 s2 rho =
     Max (set (1 # map (\<lambda>i. 1 + \<lfloor>\<bar>spec_diff si s1 s2 i\<bar> / (rho * resolution (m_stateComponent si ! i))\<rfloor>)
                       [0..<m_stateDimension si]))"

definition spec_step :: "SpaceInformationKinematic \<Rightarrow> State \<Rightarrow> State \<Rightarrow> real \<Rightarrow> real list" where
  "spec_step si s1 s2 rho =
     map (\<lambda>i. spec_diff si s1 s2 i / real_of_int (spec_nd si s1 s2 rho)) [0..<m_stateDimension si]"

section \<open>Concrete spaces of the scenarios\<close>

definition linear_axis :: StateComponent where
  "linear_axis = \<lparr>type = LINEAR, minValue = 0, maxValue = 10, resolution = 1\<rparr>"

definition corridor_space :: SpaceInformationKinematic where
  "corridor_space = \<lparr>m_stateComponent = [linear_axis, linear_axis], m_stateValidityChecker = (\<lambda>s. True)\<rparr>"

definition angle_space :: SpaceInformationKinematic where
  "angle_space = \<lparr>m_stateComponent = [\<lparr>type = WRAPPING_ANGLE, minValue = - 4, maxValue = 4, resolution = 1 / 10\<rparr>],
      m_stateValidityChecker = (\<lambda>s. True)\<rparr>"

text \<open>The same space with the disk of centre \<open>(5, 0)\<close> and radius \<open>1/2\<close> as obstacle.\<close>

definition blocked_space :: SpaceInformationKinematic where
  "blocked_space = \<lparr>m_stateComponent = [linear_axis, linear_axis],
      m_stateValidityChecker = (\<lambda>s. (s ! 0 - 5)\<^sup>2 + (s ! 1)\<^sup>2 > 1 / 4)\<rparr>"

section \<open>The motion validators\<close>

text \<open>
  The state tested at a grid position: the inner loop
  \<^verbatim>\<open>test.values[j] = s1->values[j] + factor * step[j]\<close> over the \<^verbatim>\<open>m_stateDimension\<close> slots.
\<close>

definition grid_state :: "SpaceInformationKinematic \<Rightarrow> State \<Rightarrow> real list \<Rightarrow> real \<Rightarrow> State" where
  "grid_state si s1 step factor =
     map (\<lambda>j. s1 ! j + factor * step ! j) [0..<m_stateDimension si]"

text \<open>
  The loop of \<^verbatim>\<open>checkMotionSubdivision\<close> over the FIFO queue \<^verbatim>\<open>pos\<close> of index ranges.
  \<^verbatim>\<open>(x.first + x.second) / 2\<close> is the division of C++, which truncates towards zero,
  and the addition is undefined when it leaves the range of \<^verbatim>\<open>int\<close>.
\<close>

function subdivide ::
  "SpaceInformationKinematic \<Rightarrow> State \<Rightarrow> real list \<Rightarrow> (int \<times> int) list \<Rightarrow> bool option" where
  "subdivide si s1 step [] = Some True"
| "subdivide si s1 step ((first, second) # pos) =
     (if first + second < INT_MIN \<or> INT_MAX < first + second then None
      else (let mid = (first + second) sdiv 2
            in if \<not> isValid si (grid_state si s1 step (real_of_int mid)) then Some False
               else subdivide si s1 step
                      (pos @ (if first < mid then [(first, mid - 1)] else [])
                           @ (if second > mid then [(mid + 1, second)] else []))))"
  by pat_completeness auto
termination
proof (relation "measure (\<lambda>(si, s1, step, pos).
                   sum_list (map (\<lambda>(lo, hi). 2 * nat (hi - lo + 1) + 1) pos))", goal_cases)
  case 1
  show ?case by simp
next
  case (2 si s1 step first second pos mid)
  have "sgn (first + second) * (\<bar>first + second\<bar> div 2) \<le> \<bar>first + second\<bar> div 2"
       "- (\<bar>first + second\<bar> div 2) \<le> sgn (first + second) * (\<bar>first + second\<bar> div 2)"
    by (auto simp: sgn_if)
  then have "first \<le> second \<Longrightarrow> first \<le> mid \<and> mid \<le> second"
    and "second < first \<Longrightarrow> second \<le> mid \<and> mid \<le> first"
    unfolding 2(2) signed_divide_int_def by (auto simp: sgn_if abs_if split: if_splits)
  then show ?case
    by (cases "first \<le> second") auto
qed

definition checkMotionSubdivision ::
  "SpaceInformationKinematic \<Rightarrow> State \<Rightarrow> State \<Rightarrow> bool option" where
  "checkMotionSubdivision si s1 s2 =
     (if \<not> isValid si s2 then Some False
      else (case findDifferenceStep si s1 s2 1 of
              None \<Rightarrow> None
            | Some (nd, step) \<Rightarrow>
                subdivide si s1 step (if nd \<ge> 2 then [(1, nd - 1)] else [])))"

text \<open>
  The loop of \<^verbatim>\<open>checkMotionIncremental\<close>. The output parameters are optional pointers:
  \<open>None\<close> is a null pointer, \<open>Some v\<close> a pointer to an object that holds \<open>v\<close>; the function
  returns their contents after the call. The last component lists, in order, the
  states that were passed to \<^verbatim>\<open>isValid\<close>.
\<close>

function incremental_loop ::
  "SpaceInformationKinematic \<Rightarrow> State \<Rightarrow> real list \<Rightarrow> int \<Rightarrow> int \<Rightarrow> State option \<Rightarrow> real option \<Rightarrow>
   State list \<Rightarrow> bool \<times> State option \<times> real option \<times> State list" where
  "incremental_loop si s1 step nd j lastValidState lastValidTime tested =
     (if j < nd then
        (let factor = real_of_int j;
             test = grid_state si s1 step factor
         in if \<not> isValid si test then
              (False,
               (case lastValidState of
                  None \<Rightarrow> None
                | Some _ \<Rightarrow> Some (grid_state si s1 step (factor - 1))),
               (case lastValidTime of
                  None \<Rightarrow> None
                | Some _ \<Rightarrow> Some (real_of_int (j - 1) / real_of_int nd)),
               tested @ [test])
            else incremental_loop si s1 step nd (j + 1) lastValidState lastValidTime (tested @ [test]))
      else (True, lastValidState, lastValidTime, tested))"
  by pat_completeness auto
termination
  by (relation "measure (\<lambda>(si, s1, step, nd, j, lvs, lvt, tested). nat (nd - j))") auto

definition checkMotionIncremental ::
  "SpaceInformationKinematic \<Rightarrow> State \<Rightarrow> State \<Rightarrow> State option \<Rightarrow> real option \<Rightarrow>
   (bool \<times> State option \<times> real option \<times> State list) option" where
  "checkMotionIncremental si s1 s2 lastValidState lastValidTime =
     (if \<not> isValid si s2 then Some (False, lastValidState, lastValidTime, [s2])
      else (case findDifferenceStep si s1 s2 1 of
              None \<Rightarrow> None
            | Some (nd, step) \<Rightarrow>
                Some (incremental_loop si s1 step nd 1 lastValidState lastValidTime [s2])))"

section \<open>Paths and motion states\<close>

text \<open>
  Modelled from the spec: \<^verbatim>\<open>copyState\<close> is inherited from the base class and is not part
  of the sources at hand. The spec says that copies of states are deep; the function
  gives the contents of the destination after the call, the \<^verbatim>\<open>m_stateDimension\<close> values
  of the source.
\<close>

definition copyState :: "SpaceInformationKinematic \<Rightarrow> State \<Rightarrow> State" where
  "copyState si source = map (\<lambda>i. source ! i) [0..<m_stateDimension si]"

text \<open>
  Modelled from the spec: \<^verbatim>\<open>new base::State(m_stateDimension)\<close>, whose constructor is not
  part of the sources at hand, allocates a state of \<^verbatim>\<open>m_stateDimension\<close> scalars. Their
  initial values are indeterminate and are taken to be zero here; each state that
  the functions below allocate is overwritten in full before it is returned.
\<close>

definition new_State :: "SpaceInformationKinematic \<Rightarrow> State" where
  "new_State si = replicate (m_stateDimension si) 0"

text \<open>
  The loop of \<^verbatim>\<open>checkPath\<close> over the edges, with its flag \<^verbatim>\<open>result\<close>
  (\<open>last_index\<close> is the variable \<^verbatim>\<open>last\<close>). The vector
  \<^verbatim>\<open>path->states\<close> is the list of the states its pointers refer to.
\<close>

function checkPath_loop ::
  "SpaceInformationKinematic \<Rightarrow> State list \<Rightarrow> nat \<Rightarrow> nat \<Rightarrow> bool \<Rightarrow> bool option" where
  "checkPath_loop si states j last_index result =
     (if result \<and> j < last_index then
        (case checkMotionSubdivision si (states ! j) (states ! (j + 1)) of
           None \<Rightarrow> None
         | Some ok \<Rightarrow> checkPath_loop si states (j + 1) last_index (if \<not> ok then False else result))
      else Some result)"
  by pat_completeness auto
termination
  by (relation "measure (\<lambda>(si, states, j, last_index, result). last_index - j)") auto

text \<open>
  \<^verbatim>\<open>checkPath\<close>; the path \<open>None\<close> is the null pointer, for which \<^verbatim>\<open>result\<close> starts as
  false and the block is skipped.
\<close>

definition checkPath :: "SpaceInformationKinematic \<Rightarrow> State list option \<Rightarrow> bool option" where
  "checkPath si path =
     (case path of
        None \<Rightarrow> Some False
      | Some states \<Rightarrow>
          (let result = True
           in if result \<and> length states > 0 then
                (if isValid si (states ! 0) then
                   (let last_index = length states - 1
                    in checkPath_loop si states 0 last_index result)
                 else Some False)
              else Some result))"

text \<open>
  \<^verbatim>\<open>getMotionStates\<close> works on a vector of pointers to states: \<open>None\<close> is a null pointer,
  \<open>Some v\<close> a pointer to a state that holds \<open>v\<close>. \<^verbatim>\<open>states.resize(n)\<close> keeps the first \<open>n\<close>
  pointers and pads with null pointers.
\<close>

definition resize_states :: "nat \<Rightarrow> State option list \<Rightarrow> State option list" where
  "resize_states n states = take n states @ replicate (n - length states) None"

text \<open>
  The loop over the interior grid states. An index outside the vector and a write
  through a null pointer are undefined.
\<close>

function motion_states_loop ::
  "SpaceInformationKinematic \<Rightarrow> State \<Rightarrow> real list \<Rightarrow> int \<Rightarrow> bool \<Rightarrow> int \<Rightarrow> State option list \<Rightarrow> nat \<Rightarrow>
   (State option list \<times> nat) option" where
  "motion_states_loop si s1 step nd alloc j states added =
     (if j < nd \<and> added < length states then
        (if j < 0 \<or> length states \<le> nat j then None
         else (let added' = added + 1;
                   states' = (if alloc then states[nat j := Some (new_State si)] else states)
               in case states' ! nat j of
                    None \<Rightarrow> None
                  | Some _ \<Rightarrow>
                      motion_states_loop si s1 step nd alloc (j + 1)
                        (states'[nat j := Some (grid_state si s1 step (real_of_int j))]) added'))
      else Some (states, added))"
  by pat_completeness auto
termination
  by (relation "measure (\<lambda>(si, s1, step, nd, alloc, j, states, added). nat (nd - j))") auto

declare motion_states_loop.simps [simp del]

text \<open>
  The three phases of \<^verbatim>\<open>getMotionStates\<close> around the loop: the optional resize with the
  allocation of slot 0 (\<^verbatim>\<open>nd + 1\<close> must not overflow), the copy of \<open>s1\<close> into slot 0 when
  the vector is not empty, and the copy of \<open>s2\<close> when a slot is left. Each gives the vector
  and the counter \<^verbatim>\<open>added\<close>.
\<close>

definition motion_states_alloc ::
  "SpaceInformationKinematic \<Rightarrow> int \<Rightarrow> bool \<Rightarrow> State option list \<Rightarrow> State option list option" where
  "motion_states_alloc si nd alloc states =
     (if alloc then
        (if nd = INT_MAX then None
         else Some ((resize_states (nat (nd + 1)) states)[0 := Some (new_State si)]))
      else Some states)"

definition motion_states_first ::
  "SpaceInformationKinematic \<Rightarrow> State \<Rightarrow> State option list \<Rightarrow> (State option list \<times> nat) option" where
  "motion_states_first si s1 states =
     (if length states > 0 then
        (case states ! 0 of
           None \<Rightarrow> None
         | Some _ \<Rightarrow> Some (states[0 := Some (copyState si s1)], 1))
      else Some (states, 0))"

definition motion_states_last ::
  "SpaceInformationKinematic \<Rightarrow> State \<Rightarrow> bool \<Rightarrow> State option list \<Rightarrow> nat \<Rightarrow>
   (State option list \<times> nat) option" where
  "motion_states_last si s2 alloc states added =
     (if added < length states then
        (let states' = (if alloc then states[added := Some (new_State si)] else states)
         in case states' ! added of
              None \<Rightarrow> None
            | Some _ \<Rightarrow> Some (states'[added := Some (copyState si s2)], added + 1))
      else Some (states, added))"

definition getMotionStates ::
  "SpaceInformationKinematic \<Rightarrow> State \<Rightarrow> State \<Rightarrow> State option list \<Rightarrow> bool \<Rightarrow>
   (State option list \<times> nat) option" where
  "getMotionStates si s1 s2 states alloc =
     (case findDifferenceStep si s1 s2 1 of
        None \<Rightarrow> None
      | Some (nd, step) \<Rightarrow>
          (case motion_states_alloc si nd alloc states of
             None \<Rightarrow> None
           | Some states1 \<Rightarrow>
               (case motion_states_first si s1 states1 of
                  None \<Rightarrow> None
                | Some (states2, added) \<Rightarrow>
                    (case motion_states_loop si s1 step nd alloc 1 states2 added of
                       None \<Rightarrow> None
                     | Some (states3, added3) \<Rightarrow>
                         motion_states_last si s2 alloc states3 added3))))"

section \<open>Repair of the input states\<close>

text \<open>
  Modelled from the spec: \<^verbatim>\<open>satisfiesBounds\<close> is inherited from the base class and is not
  part of the sources at hand. The spec derives it from the component descriptors,
  whose bounds are inclusive.
\<close>

definition satisfiesBounds :: "SpaceInformationKinematic \<Rightarrow> State \<Rightarrow> bool" where
  "satisfiesBounds si s =
     list_all (\<lambda>i. minValue (m_stateComponent si ! i) \<le> s ! i \<and> s ! i \<le> maxValue (m_stateComponent si ! i))
       [0..<m_stateDimension si]"

text \<open>
  Modelled from the spec: the random number generator \<^verbatim>\<open>m_rng\<close> of a \<^verbatim>\<open>SamplingCore\<close> is
  an injected capability that draws a real uniformly from an interval and a unit
  quaternion. Its class is not part of the sources at hand. A generator is a state
  of some type \<open>'r\<close>; a draw gives the value and the next state.
\<close>

record 'r RNG =
  uniform :: "'r \<Rightarrow> real \<Rightarrow> real \<Rightarrow> real \<times> 'r"
  quaternion :: "'r \<Rightarrow> (real \<times> real \<times> real \<times> real) \<times> 'r"

text \<open>
  \<^verbatim>\<open>SamplingCore::sampleNear\<close> with a vector of radii: the loop over the slots, which
  skips the three slots after a quaternion head. A quaternion that does not fit in
  the state and a radius that is missing from \<^verbatim>\<open>rho\<close> are undefined.
\<close>

function sampleNear ::
  "'r RNG \<Rightarrow> SpaceInformationKinematic \<Rightarrow> State \<Rightarrow> real list \<Rightarrow> nat \<Rightarrow> State \<Rightarrow> 'r \<Rightarrow> (State \<times> 'r) option" where
  "sampleNear rng si near rho i state r =
     (if i < m_stateDimension si then
        (let comp = m_stateComponent si ! i
         in if type comp = QUATERNION then
              (if m_stateDimension si < i + 4 then None
               else (case quaternion rng r of
                       ((q0, q1, q2, q3), r') \<Rightarrow>
                         sampleNear rng si near rho (i + 3 + 1)
                           (state[i := q0, i + 1 := q1, i + 2 := q2, i + 3 := q3]) r'))
            else
              (if length rho \<le> i then None
               else (case uniform rng r (max (minValue comp) (near ! i - rho ! i))
                                        (min (maxValue comp) (near ! i + rho ! i)) of
                       (v, r') \<Rightarrow> sampleNear rng si near rho (i + 1) (state[i := v]) r')))
      else Some (state, r))"
  by pat_completeness auto
termination
  by (relation "measure (\<lambda>(rng, si, near, rho, i, state, r). m_stateDimension si - i)") auto

declare sampleNear.simps [simp del]

text \<open>The projection into the bounds in \<^verbatim>\<open>searchValidNearby\<close>, slot by slot.\<close>

definition fix_bounds :: "SpaceInformationKinematic \<Rightarrow> State \<Rightarrow> State" where
  "fix_bounds si state =
     map (\<lambda>i. if state ! i > maxValue (m_stateComponent si ! i) then maxValue (m_stateComponent si ! i)
               else if state ! i < minValue (m_stateComponent si ! i) then minValue (m_stateComponent si ! i)
               else state ! i)
         [0..<m_stateDimension si]"

text \<open>
  The sampling loop of \<^verbatim>\<open>searchValidNearby\<close>: \<open>temp\<close> is the projected state, \<open>state\<close> the
  output, \<open>r\<close> the generator of the local \<^verbatim>\<open>SamplingCore\<close>.
\<close>

function search_loop ::
  "'r RNG \<Rightarrow> SpaceInformationKinematic \<Rightarrow> real list \<Rightarrow> nat \<Rightarrow> State \<Rightarrow> nat \<Rightarrow> State \<Rightarrow> 'r \<Rightarrow> bool \<Rightarrow>
   (bool \<times> State) option" where
  "search_loop rng si rho attempts temp i state r result =
     (if i < attempts \<and> \<not> result then
        (case sampleNear rng si temp rho 0 state r of
           None \<Rightarrow> None
         | Some (state', r') \<Rightarrow>
             search_loop rng si rho attempts temp (i + 1) state' r' (isValid si state'))
      else Some (result, state))"
  by pat_completeness auto
termination
  by (relation "measure (\<lambda>(rng, si, rho, attempts, temp, i, state, r, result). attempts - i)") auto

declare search_loop.simps [simp del]

text \<open>
  \<^verbatim>\<open>searchValidNearby\<close> gives its result and the contents of the output \<^verbatim>\<open>state\<close>; \<open>r\<close> is
  the generator that the \<^verbatim>\<open>SamplingCore\<close> it constructs starts with.
\<close>

definition searchValidNearby ::
  "'r RNG \<Rightarrow> SpaceInformationKinematic \<Rightarrow> State \<Rightarrow> real list \<Rightarrow> nat \<Rightarrow> 'r \<Rightarrow> (bool \<times> State) option" where
  "searchValidNearby rng si near rho attempts r =
     (let state = copyState si near;
          state = (if \<not> satisfiesBounds si state then fix_bounds si state else state);
          result = isValid si state
      in if \<not> result then
           (let temp = copyState si state
            in search_loop rng si rho attempts temp 0 state r result)
         else Some (result, state))"

text \<open>
  The members that \<^verbatim>\<open>fixInvalidInputStates\<close> reads and writes: the start states (a
  vector of pointers, \<open>None\<close> the null pointer), the goal (a goal state with its pointer
  to a state, or a goal of another class, on which the \<^verbatim>\<open>dynamic_cast\<close> fails) and the
  two vectors of the assertion.
\<close>

datatype Goal = GoalState "State option" | OtherGoal

record InputStates =
  m_startStates :: "State option list"
  m_goal :: Goal
  m_rhoStartFix :: "real list"
  m_rhoGoalFix :: "real list"

datatype warning = Unable_to_fix_start_state nat | Unable_to_fix_goal_state

text \<open>
  The body for one state, the same for a start state and for the goal state: it
  gives the contents of the state after the body and whether the warning was
  issued. The informational messages are left out.
\<close>

definition fix_state ::
  "'r RNG \<Rightarrow> SpaceInformationKinematic \<Rightarrow> State \<Rightarrow> real list \<Rightarrow> nat \<Rightarrow> 'r \<Rightarrow> (State \<times> bool) option" where
  "fix_state rng si st rho attempts r =
     (let b = satisfiesBounds si st;
          v = (if b then isValid si st else False)
      in if \<not> b \<or> \<not> v then
           (case searchValidNearby rng si st rho attempts r of
              None \<Rightarrow> None
            | Some (found, temp) \<Rightarrow>
                if found then Some (copyState si temp, False) else Some (st, True))
         else Some (st, False))"

text \<open>
  The loop over the start states. \<open>new_rng k\<close> is the generator of the \<^verbatim>\<open>SamplingCore\<close>
  constructed for start state \<open>k\<close>.
\<close>

function fix_start_states ::
  "'r RNG \<Rightarrow> SpaceInformationKinematic \<Rightarrow> (nat \<Rightarrow> 'r) \<Rightarrow> real list \<Rightarrow> nat \<Rightarrow> nat \<Rightarrow> State option list \<Rightarrow>
   warning list \<Rightarrow> (State option list \<times> warning list) option" where
  "fix_start_states rng si new_rng rhoStart attempts i startStates warnings =
     (if i < length startStates then
        (case startStates ! i of
           None \<Rightarrow> fix_start_states rng si new_rng rhoStart attempts (i + 1) startStates warnings
         | Some st \<Rightarrow>
             (case fix_state rng si st rhoStart attempts (new_rng i) of
                None \<Rightarrow> None
              | Some (st', warned) \<Rightarrow>
                  fix_start_states rng si new_rng rhoStart attempts (i + 1)
                    (startStates[i := Some st'])
                    (warnings @ (if warned then [Unable_to_fix_start_state i] else []))))
      else Some (startStates, warnings))"
  by pat_completeness auto
termination
  by (relation "measure (\<lambda>(rng, si, new_rng, rhoStart, attempts, i, startStates, warnings).
                   length startStates - i)") auto

declare fix_start_states.simps [simp del]

text \<open>
  \<^verbatim>\<open>fixInvalidInputStates\<close>: the assertion (a failed assertion aborts, which is \<open>None\<close>
  too), the start states, then the goal state, whose \<^verbatim>\<open>SamplingCore\<close> starts with the
  generator \<open>new_rng (length m_startStates)\<close>.
\<close>

definition fixInvalidInputStates ::
  "'r RNG \<Rightarrow> SpaceInformationKinematic \<Rightarrow> (nat \<Rightarrow> 'r) \<Rightarrow> InputStates \<Rightarrow> real list \<Rightarrow> real list \<Rightarrow> nat \<Rightarrow>
   (InputStates \<times> warning list) option" where
  "fixInvalidInputStates rng si new_rng inp rhoStart rhoGoal attempts =
     (if \<not> (length (m_rhoStartFix inp) = length (m_rhoGoalFix inp) \<and>
             length (m_rhoStartFix inp) = m_stateDimension si) then None
      else (case fix_start_states rng si new_rng rhoStart attempts 0 (m_startStates inp) [] of
              None \<Rightarrow> None
            | Some (startStates', warnings) \<Rightarrow>
                (case m_goal inp of
                   GoalState (Some st) \<Rightarrow>
                     (case fix_state rng si st rhoGoal attempts (new_rng (length (m_startStates inp))) of
                        None \<Rightarrow> None
                      | Some (st', warned) \<Rightarrow>
                          Some (inp\<lparr>m_startStates := startStates', m_goal := GoalState (Some st')\<rparr>,
                                warnings @ (if warned then [Unable_to_fix_goal_state] else [])))
                 | _ \<Rightarrow> Some (inp\<lparr>m_startStates := startStates'\<rparr>, warnings))))"

text \<open>A generator without state that always draws the lower end of the interval.\<close>

definition lower_bound_rng :: "nat RNG" where
  "lower_bound_rng = \<lparr>uniform = (\<lambda>r a b. (a, r)), quaternion = (\<lambda>r. ((1, 0, 0, 0), r))\<rparr>"
section \<open>Properties of the difference-step primitive\<close>

lemma double_to_int_Some:
  "double_to_int x = Some t \<Longrightarrow> t = (if 0 \<le> x then \<lfloor>x\<rfloor> else \<lceil>x\<rceil>)"
  by (auto simp: double_to_int_def Let_def split: if_splits)

lemma max_trunc_floor:
  fixes nd :: int
  assumes "1 \<le> nd"
  shows "max nd (1 + (if 0 \<le> x then \<lfloor>x\<rfloor> else \<lceil>x::real\<rceil>)) = max nd (1 + \<lfloor>x\<rfloor>)"
proof (cases "0 \<le> x")
  case True then show ?thesis by simp
next
  case False
  then have "\<lceil>x\<rceil> \<le> 0" "\<lfloor>x\<rfloor> \<le> 0" by linarith+
  with assms have "max nd (1 + \<lceil>x\<rceil>) = nd" "max nd (1 + \<lfloor>x\<rfloor>) = nd" by linarith+
  with False show ?thesis by simp
qed

lemma Max_insert_max:
  fixes a :: int
  assumes "finite A"
  shows "Max (insert (max a b) A) = max a (Max (insert b A))"
proof (cases "A = {}")
  case True then show ?thesis by simp
next
  case False
  with assms show ?thesis by (simp add: max.assoc)
qed

lemma find_divisions_Some:
  "find_divisions si diff factor is nd0 = Some nd \<Longrightarrow> 1 \<le> nd0 \<Longrightarrow>
   nd = Max (set (nd0 # map (\<lambda>i. 1 + \<lfloor>\<bar>diff ! i\<bar> / (factor * resolution (m_stateComponent si ! i))\<rfloor>) is))"
proof (induction "is" arbitrary: nd0)
  case Nil
  then show ?case by simp
next
  case (Cons i "is")
  let ?q = "\<bar>diff ! i\<bar> / (factor * resolution (m_stateComponent si ! i))"
  let ?f = "\<lambda>i. 1 + \<lfloor>\<bar>diff ! i\<bar> / (factor * resolution (m_stateComponent si ! i))\<rfloor>"
  from Cons.prems(1) obtain t where t: "double_to_int ?q = Some t"
    and rec: "find_divisions si diff factor is (if nd0 < 1 + t then 1 + t else nd0) = Some nd"
    by (auto simp: Let_def split: if_splits option.splits)
  have "(if nd0 < 1 + t then 1 + t else nd0) = max nd0 (1 + t)"
    by (simp add: max_def)
  also have "\<dots> = max nd0 (1 + \<lfloor>?q\<rfloor>)"
    unfolding double_to_int_Some[OF t] by (rule max_trunc_floor[OF Cons.prems(2)])
  finally have m: "(if nd0 < 1 + t then 1 + t else nd0) = max nd0 (1 + \<lfloor>?q\<rfloor>)" .
  have "1 \<le> max nd0 (1 + \<lfloor>?q\<rfloor>)" using Cons.prems(2) by simp
  from Cons.IH[OF rec[unfolded m] this]
  have "nd = Max (set (max nd0 (?f i) # map ?f is))" .
  also have "\<dots> = Max (set (nd0 # map ?f (i # is)))"
    by (simp add: Max_insert_max)
  finally show ?case .
qed

lemma find_diffs_eq:
  "find_diffs si s1 s2 = map (spec_diff si s1 s2) [0..<m_stateDimension si]"
  by (simp add: find_diffs_def spec_diff_def)

lemma findDifferenceStep_Some:
  assumes "findDifferenceStep si s1 s2 rho = Some (nd, step)"
  shows "nd = spec_nd si s1 s2 rho" and "step = spec_step si s1 s2 rho"
proof -
  let ?diff = "find_diffs si s1 s2"
  let ?D = "m_stateDimension si"
  from assms have fd: "find_divisions si ?diff rho [0..<?D] 1 = Some nd"
    and st: "step = map (\<lambda>x. x / real_of_int nd) ?diff"
    by (auto simp: findDifferenceStep_def Let_def split: option.splits)
  have "map (\<lambda>i. 1 + \<lfloor>\<bar>?diff ! i\<bar> / (rho * resolution (m_stateComponent si ! i))\<rfloor>) [0..<?D]
      = map (\<lambda>i. 1 + \<lfloor>\<bar>spec_diff si s1 s2 i\<bar> / (rho * resolution (m_stateComponent si ! i))\<rfloor>) [0..<?D]"
    by (rule map_cong) (simp_all add: find_diffs_eq)
  with find_divisions_Some[OF fd] show nd: "nd = spec_nd si s1 s2 rho"
    by (simp add: spec_nd_def)
  show "step = spec_step si s1 s2 rho"
    unfolding st nd spec_step_def find_diffs_eq by simp
qed

lemma spec_nd_ge_1: "1 \<le> spec_nd si s1 s2 rho"
  by (simp add: spec_nd_def)

lemma spec_nd_ge:
  "i < m_stateDimension si \<Longrightarrow>
   1 + \<lfloor>\<bar>spec_diff si s1 s2 i\<bar> / (rho * resolution (m_stateComponent si ! i))\<rfloor> \<le> spec_nd si s1 s2 rho"
  unfolding spec_nd_def by (rule Max_ge) auto

lemma spec_step_nth:
  "i < m_stateDimension si \<Longrightarrow>
   spec_step si s1 s2 rho ! i = spec_diff si s1 s2 i / real_of_int (spec_nd si s1 s2 rho)"
  by (simp add: spec_step_def)

lemma find_divisions_defined:
  assumes "\<forall>i\<in>set is. 0 < factor * resolution (m_stateComponent si ! i) \<and>
             \<bar>diff ! i\<bar> / (factor * resolution (m_stateComponent si ! i)) < 2147483647"
  shows "\<exists>nd. find_divisions si diff factor is nd0 = Some nd"
  using assms
proof (induction "is" arbitrary: nd0)
  case Nil
  then show ?case by simp
next
  case (Cons i "is")
  let ?q = "\<bar>diff ! i\<bar> / (factor * resolution (m_stateComponent si ! i))"
  from Cons.prems have r: "0 < factor * resolution (m_stateComponent si ! i)" and q: "?q < 2147483647"
    by simp_all
  from r have q0: "0 \<le> ?q" by simp
  then have f0: "0 \<le> \<lfloor>?q\<rfloor>" by simp
  from q have f1: "\<lfloor>?q\<rfloor> < 2147483647" by (simp add: floor_less_iff)
  from q0 f0 f1 have d: "double_to_int ?q = Some \<lfloor>?q\<rfloor>"
    by (simp add: double_to_int_def INT_MAX_def INT_MIN_def)
  from Cons.prems have rest: "\<forall>i\<in>set is. 0 < factor * resolution (m_stateComponent si ! i) \<and>
             \<bar>diff ! i\<bar> / (factor * resolution (m_stateComponent si ! i)) < 2147483647" by simp
  from f1 have ne: "\<lfloor>?q\<rfloor> \<noteq> INT_MAX" unfolding INT_MAX_def by linarith
  from r have "factor \<noteq> 0" "resolution (m_stateComponent si ! i) \<noteq> 0" by auto
  then show ?case using Cons.IH[OF rest] d ne
    by (simp add: Let_def)
qed

lemma findDifferenceStep_defined:
  assumes "0 < rho"
    and "\<forall>i<m_stateDimension si. 0 < resolution (m_stateComponent si ! i)"
    and "\<forall>i<m_stateDimension si.
           \<bar>spec_diff si s1 s2 i\<bar> / (rho * resolution (m_stateComponent si ! i)) < 2147483647"
  shows "findDifferenceStep si s1 s2 rho = Some (spec_nd si s1 s2 rho, spec_step si s1 s2 rho)"
proof -
  have "\<forall>i\<in>set [0..<m_stateDimension si]. 0 < rho * resolution (m_stateComponent si ! i) \<and>
          \<bar>find_diffs si s1 s2 ! i\<bar> / (rho * resolution (m_stateComponent si ! i)) < 2147483647"
    using assms by (simp add: find_diffs_eq)
  from find_divisions_defined[OF this, of 1]
  obtain nd where "find_divisions si (find_diffs si s1 s2) rho [0..<m_stateDimension si] 1 = Some nd" ..
  then have "findDifferenceStep si s1 s2 rho = Some (nd, map (\<lambda>x. x / real_of_int nd) (find_diffs si s1 s2))"
    by (simp add: findDifferenceStep_def)
  with findDifferenceStep_Some[OF this] show ?thesis by simp
qed

lemma step_bound:
  assumes "i < m_stateDimension si" and "0 < rho * resolution (m_stateComponent si ! i)"
  shows "\<bar>spec_step si s1 s2 rho ! i\<bar> < rho * resolution (m_stateComponent si ! i)"
proof -
  let ?r = "rho * resolution (m_stateComponent si ! i)"
  let ?d = "\<bar>spec_diff si s1 s2 i\<bar>"
  let ?nd = "spec_nd si s1 s2 rho"
  have nd1: "0 < real_of_int ?nd" using spec_nd_ge_1[of si s1 s2 rho] by simp
  have "?d / ?r < real_of_int (1 + \<lfloor>?d / ?r\<rfloor>)" by linarith
  also have "\<dots> \<le> real_of_int ?nd" using spec_nd_ge[OF assms(1)] by (simp only: of_int_le_iff)
  finally have "?d < real_of_int ?nd * ?r" using assms(2) by (simp add: pos_divide_less_eq)
  then have "?d / real_of_int ?nd < ?r" using nd1 by (simp add: pos_divide_less_eq mult.commute)
  then show ?thesis using nd1 assms(1) by (simp add: spec_step_nth)
qed

lemma sad_congruent:
  "\<exists>k::int. shortest_angular_distance a b = b - a + 2 * pi * of_int k"
  unfolding shortest_angular_distance_def Let_def
  by (rule exI[of _ "- \<lceil>(b - a - pi) / (2 * pi)\<rceil>"]) simp

lemma sad_range:
  "- pi < shortest_angular_distance a b \<and> shortest_angular_distance a b \<le> pi"
proof -
  let ?x = "(b - a - pi) / (2 * pi)"
  have e: "?x * (2 * pi) = b - a - pi" by simp
  have "?x \<le> of_int \<lceil>?x\<rceil>" by linarith
  then have "?x * (2 * pi) \<le> of_int \<lceil>?x\<rceil> * (2 * pi)"
    by (rule mult_right_mono) simp
  then have 1: "b - a - pi \<le> 2 * pi * of_int \<lceil>?x\<rceil>"
    unfolding e by (simp add: mult.commute)
  have "of_int \<lceil>?x\<rceil> < ?x + 1" by linarith
  then have "of_int \<lceil>?x\<rceil> * (2 * pi) < (?x + 1) * (2 * pi)"
    by (rule mult_strict_right_mono) simp
  also have "\<dots> = b - a - pi + 2 * pi"
    unfolding distrib_right e by simp
  finally have 2: "2 * pi * of_int \<lceil>?x\<rceil> < b - a - pi + 2 * pi"
    by (simp add: mult.commute)
  from 1 2 show ?thesis by (simp add: shortest_angular_distance_def Let_def)
qed

lemma upt_2: "[0..<2] = [0, Suc 0]"
  by (simp add: upt_rec)

lemma corridor_comps: "m_stateComponent corridor_space = [linear_axis, linear_axis]"
  by (simp add: corridor_space_def)

lemma angle_comps:
  "m_stateComponent angle_space = [\<lparr>type = WRAPPING_ANGLE, minValue = - 4, maxValue = 4, resolution = 1 / 10\<rparr>]"
  by (simp add: angle_space_def)

lemma corridor_dim: "m_stateDimension corridor_space = 2"
  by (simp add: m_stateDimension_def corridor_comps)

lemma angle_dim: "m_stateDimension angle_space = 1"
  by (simp add: m_stateDimension_def angle_comps)

lemma corridor_step:
  "findDifferenceStep corridor_space [0, 0] [10, 0] 1 = Some (11, [10 / 11, 0])"
  by (simp add: findDifferenceStep_def find_diffs_def corridor_dim upt_2 double_to_int_def
      INT_MAX_def INT_MIN_def Let_def corridor_comps linear_axis_def)

lemma sad_0: "shortest_angular_distance 0 0 = 0"
proof -
  have "\<lceil>- pi / (2 * pi)\<rceil> = \<lceil>- (1 / 2) :: real\<rceil>" by simp
  also have "\<dots> = 0" by linarith
  finally show ?thesis by (simp add: shortest_angular_distance_def)
qed

lemma angle_step:
  "findDifferenceStep angle_space [0] [0] 1 = Some (1, [0])"
  by (simp add: findDifferenceStep_def find_diffs_def angle_dim double_to_int_def
      INT_MAX_def INT_MIN_def Let_def angle_comps sad_0)

subsection \<open>C3: what the difference-step primitive computes\<close>

text \<open>
  Claim C3. For every pair of states and every factor \<open>\<rho>\<close> in \<open>(0, 1]\<close>, whenever
  \<^verbatim>\<open>findDifferenceStep\<close> returns, the count is \<open>max(1, max_i (1 + \<lfloor>|diff[i]| / (\<rho> \<sqdot> resolution[i])\<rfloor>))\<close>
  and the step is \<open>diff[i] / nd\<close>, where \<open>diff[i]\<close> is the shortest angular distance on a
  wrapping axis and \<open>s2[i] - s1[i]\<close> on every other axis. It does return (the conversion
  to \<^verbatim>\<open>int\<close> is defined) when every resolution is positive and every quotient
  \<open>|diff[i]| / (\<rho> \<sqdot> resolution[i])\<close> is below \<^verbatim>\<open>INT_MAX\<close>.
\<close>

theorem findDifferenceStep_definition:
  assumes "0 < rho" and "rho \<le> 1"
  shows "(\<forall>nd step. findDifferenceStep si s1 s2 rho = Some (nd, step) \<longrightarrow>
            nd = spec_nd si s1 s2 rho \<and> step = spec_step si s1 s2 rho) \<and>
         ((\<forall>i<m_stateDimension si. 0 < resolution (m_stateComponent si ! i) \<and>
              \<bar>spec_diff si s1 s2 i\<bar> / (rho * resolution (m_stateComponent si ! i)) < 2147483647) \<longrightarrow>
          findDifferenceStep si s1 s2 rho = Some (spec_nd si s1 s2 rho, spec_step si s1 s2 rho))"
  using assms(1) findDifferenceStep_Some[of si s1 s2 rho] findDifferenceStep_defined[of rho si s1 s2]
  by blast

lemma corridor_spec_diff:
  "i < 2 \<Longrightarrow> spec_diff corridor_space [0, 0] [10, 0] i = (if i = 0 then 10 else 0)"
  by (cases i) (auto simp: spec_diff_def corridor_comps linear_axis_def)

lemma corridor_components:
  "i < 2 \<Longrightarrow> m_stateComponent corridor_space ! i = linear_axis"
  by (cases i) (auto simp: corridor_comps)

theorem findDifferenceStep_definition_witness:
  "(0::real) < 1 \<and> (1::real) \<le> 1 \<and>
   findDifferenceStep corridor_space [0, 0] [10, 0] 1 = Some (11, [10 / 11, 0]) \<and>
   m_stateDimension corridor_space = 2 \<and>
   0 < resolution (m_stateComponent corridor_space ! 0) \<and>
   0 < resolution (m_stateComponent corridor_space ! 1) \<and>
   \<bar>spec_diff corridor_space [0, 0] [10, 0] 0\<bar> / (1 * resolution (m_stateComponent corridor_space ! 0)) < 2147483647 \<and>
   \<bar>spec_diff corridor_space [0, 0] [10, 0] 1\<bar> / (1 * resolution (m_stateComponent corridor_space ! 1)) < 2147483647 \<and>
   spec_nd corridor_space [0, 0] [10, 0] 1 = 11 \<and>
   spec_step corridor_space [0, 0] [10, 0] 1 = [10 / 11, 0]"
proof -
  have h: "\<forall>i<m_stateDimension corridor_space. 0 < resolution (m_stateComponent corridor_space ! i) \<and>
       \<bar>spec_diff corridor_space [0, 0] [10, 0] i\<bar> / (1 * resolution (m_stateComponent corridor_space ! i)) < 2147483647"
    by (simp add: corridor_dim corridor_components corridor_spec_diff linear_axis_def)
  from findDifferenceStep_definition[of 1 corridor_space "[0, 0]" "[10, 0]"] corridor_step h
  show ?thesis by (simp add: corridor_dim corridor_components corridor_spec_diff linear_axis_def)
qed

subsection \<open>C4: the step stays within the resolution\<close>

text \<open>
  Claim C4. At factor 1.0, on every axis \<open>i\<close> whose resolution is positive, the step
  vector returned by \<^verbatim>\<open>findDifferenceStep\<close> satisfies \<open>|step[i]| \<le> resolution[i]\<close>.
\<close>

theorem step_within_resolution:
  assumes "findDifferenceStep si s1 s2 1 = Some (nd, step)"
    and "i < m_stateDimension si"
    and "0 < resolution (m_stateComponent si ! i)"
  shows "\<bar>step ! i\<bar> \<le> resolution (m_stateComponent si ! i)"
  using step_bound[of i si 1 s1 s2] findDifferenceStep_Some(2)[OF assms(1)] assms(2,3)
  by simp

theorem step_within_resolution_witness:
  "findDifferenceStep corridor_space [0, 0] [10, 0] 1 = Some (11, [10 / 11, 0]) \<and>
   0 < m_stateDimension corridor_space \<and>
   0 < resolution (m_stateComponent corridor_space ! 0) \<and>
   \<bar>[10 / 11, 0 :: real] ! 0\<bar> \<le> resolution (m_stateComponent corridor_space ! 0)"
  using step_within_resolution[OF corridor_step, of 0]
  by (simp add: corridor_step corridor_dim corridor_comps linear_axis_def)

subsection \<open>C9: the grid ends at the second state\<close>

text \<open>
  Claim C9. Over the reals, the step vector returned by \<^verbatim>\<open>findDifferenceStep\<close> satisfies
  \<open>s1[i] + nd \<sqdot> step[i] = s2[i]\<close> on every axis that is not a wrapping angle (so on every
  linear axis), and on a wrapping axis \<open>s1[i] + nd \<sqdot> step[i]\<close> differs from \<open>s2[i]\<close> by an
  integer multiple of \<open>2\<pi>\<close>.
\<close>

theorem endpoint_closure:
  assumes "findDifferenceStep si s1 s2 rho = Some (nd, step)"
    and "i < m_stateDimension si"
  shows "if type (m_stateComponent si ! i) = WRAPPING_ANGLE
         then \<exists>k::int. s1 ! i + real_of_int nd * step ! i = s2 ! i + 2 * pi * of_int k
         else s1 ! i + real_of_int nd * step ! i = s2 ! i"
proof -
  have nd: "nd = spec_nd si s1 s2 rho" and st: "step = spec_step si s1 s2 rho"
    using findDifferenceStep_Some[OF assms(1)] by simp_all
  have "real_of_int nd \<noteq> 0" using spec_nd_ge_1[of si s1 s2 rho] nd by simp
  then have e: "real_of_int nd * step ! i = spec_diff si s1 s2 i"
    using assms(2) by (simp add: st nd spec_step_nth)
  show ?thesis
  proof (cases "type (m_stateComponent si ! i) = WRAPPING_ANGLE")
    case True
    from sad_congruent[of "s1 ! i" "s2 ! i"] obtain k :: int
      where "shortest_angular_distance (s1 ! i) (s2 ! i) = s2 ! i - s1 ! i + 2 * pi * of_int k" ..
    with True e have "s1 ! i + real_of_int nd * step ! i = s2 ! i + 2 * pi * of_int k"
      by (simp add: spec_diff_def)
    with True show ?thesis by auto
  next
    case False
    with e show ?thesis by (simp add: spec_diff_def)
  qed
qed

theorem endpoint_closure_witness:
  "findDifferenceStep corridor_space [0, 0] [10, 0] 1 = Some (11, [10 / 11, 0]) \<and>
   0 < m_stateDimension corridor_space \<and>
   type (m_stateComponent corridor_space ! 0) \<noteq> WRAPPING_ANGLE \<and>
   [0, 0 :: real] ! 0 + real_of_int 11 * [10 / 11, 0] ! 0 = [10, 0 :: real] ! 0 \<and>
   findDifferenceStep angle_space [0] [0] 1 = Some (1, [0]) \<and>
   0 < m_stateDimension angle_space \<and>
   type (m_stateComponent angle_space ! 0) = WRAPPING_ANGLE \<and>
   (\<exists>k::int. [0 :: real] ! 0 + real_of_int 1 * [0] ! 0 = [0] ! 0 + 2 * pi * of_int k)"
  using endpoint_closure[OF corridor_step, of 0] endpoint_closure[OF angle_step, of 0]
  by (simp add: corridor_step angle_step corridor_dim angle_dim corridor_comps linear_axis_def angle_comps)

section \<open>Properties of the motion validators\<close>

lemma sdiv_2_between:
  fixes lo hi :: int
  assumes "lo \<le> hi"
  shows "lo \<le> (lo + hi) sdiv 2" and "(lo + hi) sdiv 2 \<le> hi"
  using assms unfolding signed_divide_int_def
  by (auto simp: sgn_if abs_if split: if_splits)

lemma subdivide_sound:
  "subdivide si s1 step pos = Some True \<Longrightarrow> (lo, hi) \<in> set pos \<Longrightarrow> lo \<le> k \<Longrightarrow> k \<le> hi \<Longrightarrow>
   isValid si (grid_state si s1 step (real_of_int k))"
proof (induction si s1 step pos arbitrary: lo hi k rule: subdivide.induct)
  case (1 si s1 step)
  then show ?case by simp
next
  case (2 si s1 step first second pos)
  let ?mid = "(first + second) sdiv 2"
  let ?pos' = "pos @ (if first < ?mid then [(first, ?mid - 1)] else [])
                   @ (if second > ?mid then [(?mid + 1, second)] else [])"
  from "2.prems"(1) have range: "\<not> (first + second < INT_MIN \<or> INT_MAX < first + second)"
    by (auto split: if_splits)
  from "2.prems"(1) range have vmid: "isValid si (grid_state si s1 step (real_of_int ?mid))"
    by (auto simp: Let_def split: if_splits)
  from "2.prems"(1) range vmid have rec: "subdivide si s1 step ?pos' = Some True"
    by (simp add: Let_def)
  from vmid have nvmid: "\<not> \<not> isValid si (grid_state si s1 step (real_of_int ?mid))" by simp
  note IH = "2.IH"[OF range refl nvmid rec]
  show ?case
  proof (cases "(lo, hi) \<in> set pos")
    case True
    then have "(lo, hi) \<in> set ?pos'" by simp
    from IH[OF this "2.prems"(3,4)] show ?thesis .
  next
    case False
    with "2.prems"(2) have eq: "lo = first" "hi = second" by simp_all
    consider "k < ?mid" | "k = ?mid" | "?mid < k" by linarith
    then show ?thesis
    proof cases
      case 1
      with "2.prems"(3) eq have "first < ?mid" by simp
      then have "(first, ?mid - 1) \<in> set ?pos'" by simp
      from IH[OF this] "2.prems"(3) eq 1 show ?thesis by simp
    next
      case 2
      with vmid show ?thesis by simp
    next
      case 3
      with "2.prems"(4) eq have "second > ?mid" by simp
      then have "(?mid + 1, second) \<in> set ?pos'" by simp
      from IH[OF this] "2.prems"(4) eq 3 show ?thesis by simp
    qed
  qed
qed

lemma checkMotionSubdivision_sound:
  assumes "checkMotionSubdivision si s1 s2 = Some True"
  shows "isValid si s2"
    and "\<exists>nd step. findDifferenceStep si s1 s2 1 = Some (nd, step) \<and>
           (\<forall>k. 1 \<le> k \<and> k \<le> nd - 1 \<longrightarrow> isValid si (grid_state si s1 step (real_of_int k)))"
proof -
  from assms show v2: "isValid si s2"
    by (auto simp: checkMotionSubdivision_def split: if_splits)
  with assms obtain nd step where fd: "findDifferenceStep si s1 s2 1 = Some (nd, step)"
    and sub: "subdivide si s1 step (if nd \<ge> 2 then [(1, nd - 1)] else []) = Some True"
    by (auto simp: checkMotionSubdivision_def split: option.splits)
  have "isValid si (grid_state si s1 step (real_of_int k))" if "1 \<le> k" "k \<le> nd - 1" for k
  proof -
    from that have "nd \<ge> 2" by simp
    with sub have "subdivide si s1 step [(1, nd - 1)] = Some True" by simp
    from subdivide_sound[OF this _ that] show ?thesis by simp
  qed
  with fd show "\<exists>nd step. findDifferenceStep si s1 s2 1 = Some (nd, step) \<and>
           (\<forall>k. 1 \<le> k \<and> k \<le> nd - 1 \<longrightarrow> isValid si (grid_state si s1 step (real_of_int k)))"
    by blast
qed

lemma grid_state_0: "length s1 = m_stateDimension si \<Longrightarrow> grid_state si s1 step 0 = s1"
  using map_nth[of s1] by (simp add: grid_state_def)

lemma incremental_loop_False:
  assumes "incremental_loop si s1 step nd j lvs lvt tested = (False, lvs', lvt', tested')"
  shows "\<exists>i. j \<le> i \<and> i < nd \<and> \<not> isValid si (grid_state si s1 step (real_of_int i)) \<and>
             (\<forall>k. j \<le> k \<and> k < i \<longrightarrow> isValid si (grid_state si s1 step (real_of_int k))) \<and>
             lvs' = map_option (\<lambda>_. grid_state si s1 step (real_of_int (i - 1))) lvs \<and>
             lvt' = map_option (\<lambda>_. real_of_int (i - 1) / real_of_int nd) lvt"
  using assms
proof (induction si s1 step nd j lvs lvt tested rule: incremental_loop.induct)
  case (1 si s1 step nd j lvs lvt tested)
  from "1.prems" have jn: "j < nd"
    by (simp split: if_splits)
  show ?case
  proof (cases "isValid si (grid_state si s1 step (real_of_int j))")
    case False
    with "1.prems" jn have "lvs' = map_option (\<lambda>_. grid_state si s1 step (real_of_int (j - 1))) lvs"
      and "lvt' = map_option (\<lambda>_. real_of_int (j - 1) / real_of_int nd) lvt"
      by (auto simp: Let_def map_option_case split: option.splits)
    with False jn show ?thesis
      by (intro exI[of _ j]) auto
  next
    case True
    with "1.prems" jn
    have "incremental_loop si s1 step nd (j + 1) lvs lvt (tested @ [grid_state si s1 step (real_of_int j)])
            = (False, lvs', lvt', tested')"
      by (simp add: Let_def)
    from "1.IH"[OF jn refl refl _ this] True
    obtain i where i: "j + 1 \<le> i" "i < nd" "\<not> isValid si (grid_state si s1 step (real_of_int i))"
      "\<forall>k. j + 1 \<le> k \<and> k < i \<longrightarrow> isValid si (grid_state si s1 step (real_of_int k))"
      "lvs' = map_option (\<lambda>_. grid_state si s1 step (real_of_int (i - 1))) lvs"
      "lvt' = map_option (\<lambda>_. real_of_int (i - 1) / real_of_int nd) lvt"
      by auto
    have "isValid si (grid_state si s1 step (real_of_int k))" if "j \<le> k" "k < i" for k
    proof (cases "k = j")
      case True
      with \<open>isValid si (grid_state si s1 step (real_of_int j))\<close> show ?thesis by simp
    next
      case False
      with that i(4) show ?thesis by simp
    qed
    with i show ?thesis
      by (intro exI[of _ i]) auto
  qed
qed

lemma blocked_comps: "m_stateComponent blocked_space = [linear_axis, linear_axis]"
  by (simp add: blocked_space_def)

lemma blocked_dim: "m_stateDimension blocked_space = 2"
  by (simp add: m_stateDimension_def blocked_comps)

lemma blocked_valid: "isValid blocked_space s = ((s ! 0 - 5)\<^sup>2 + (s ! 1)\<^sup>2 > 1 / 4)"
  by (simp add: isValid_def blocked_space_def)

lemma corridor_valid: "isValid corridor_space s"
  by (simp add: isValid_def corridor_space_def)

lemma blocked_step:
  "findDifferenceStep blocked_space [0, 0] [10, 0] 1 = Some (11, [10 / 11, 0])"
  by (simp add: findDifferenceStep_def find_diffs_def blocked_dim upt_2 double_to_int_def
      INT_MAX_def INT_MIN_def Let_def blocked_comps linear_axis_def)

lemma corridor_bisect: "checkMotionSubdivision corridor_space [0, 0] [10, 0] = Some True"
  by (simp add: checkMotionSubdivision_def corridor_valid corridor_step INT_MAX_def INT_MIN_def
      signed_divide_int_def Let_def)

lemma blocked_bisect: "checkMotionSubdivision blocked_space [0, 0] [10, 0] = Some False"
  by (simp add: checkMotionSubdivision_def blocked_valid blocked_step INT_MAX_def INT_MIN_def
      signed_divide_int_def Let_def grid_state_def blocked_dim upt_2 power2_eq_square)

lemma blocked_linear:
  "checkMotionIncremental blocked_space [0, 0] [10, 0] (Some [0, 0]) (Some 0) =
     Some (False, Some [40 / 11, 0], Some (4 / 11),
           [[10, 0], [10 / 11, 0], [20 / 11, 0], [30 / 11, 0], [40 / 11, 0], [50 / 11, 0]])"
  by (simp add: checkMotionIncremental_def blocked_valid blocked_step
      Let_def grid_state_def blocked_dim upt_2 power2_eq_square)

subsection \<open>C1: soundness of the bisection validator\<close>

text \<open>
  Claim C1. If \<^verbatim>\<open>checkMotionSubdivision\<close> returns true on an edge \<open>(s1, s2)\<close>, then \<open>s2\<close> is
  valid and, with \<open>(nd, step)\<close> the result of the difference-step primitive at factor
  1.0, every grid state \<open>s1 + k \<sqdot> step\<close> for \<open>1 \<le> k \<le> nd - 1\<close> is valid: the queue of
  ranges reaches every strictly interior index. The validity of \<open>s1\<close> is not needed.
\<close>

theorem checkMotionSubdivision_soundness:
  assumes "checkMotionSubdivision si s1 s2 = Some True"
  shows "isValid si s2 \<and>
         (\<exists>nd step. findDifferenceStep si s1 s2 1 = Some (nd, step) \<and>
            (\<forall>k. 1 \<le> k \<and> k \<le> nd - 1 \<longrightarrow> isValid si (grid_state si s1 step (real_of_int k))))"
  using checkMotionSubdivision_sound[OF assms] by simp

theorem checkMotionSubdivision_soundness_witness:
  "checkMotionSubdivision corridor_space [0, 0] [10, 0] = Some True \<and>
   isValid corridor_space [10, 0] \<and>
   (\<exists>nd step. findDifferenceStep corridor_space [0, 0] [10, 0] 1 = Some (nd, step) \<and>
      (\<forall>k. 1 \<le> k \<and> k \<le> nd - 1 \<longrightarrow>
           isValid corridor_space (grid_state corridor_space [0, 0] step (real_of_int k))))"
  using checkMotionSubdivision_soundness[OF corridor_bisect] corridor_bisect by simp

subsection \<open>C2: the last valid state reported by the incremental validator\<close>

text \<open>
  Claim C2. Let \<open>s1\<close> be valid. If \<^verbatim>\<open>checkMotionIncremental\<close> returns false although \<open>s2\<close>
  is valid (so the failure is that of a grid state and the outputs are written), then
  there is an index \<open>j\<close> in \<open>1..nd-1\<close> whose grid state is invalid while every grid state
  of index \<open>0..j-1\<close> is valid (\<open>j\<close> is the first invalid index); a non-null
  \<^verbatim>\<open>lastValidState\<close> then holds \<open>s1 + (j-1) \<sqdot> step\<close> and a non-null \<^verbatim>\<open>lastValidTime\<close> holds
  \<open>(j-1) / nd\<close>.
\<close>

theorem checkMotionIncremental_last_valid:
  assumes "checkMotionIncremental si s1 s2 lastValidState lastValidTime = Some (False, lvs', lvt', tested)"
    and "isValid si s2"
    and "isValid si s1"
    and "length s1 = m_stateDimension si"
  shows "\<exists>nd step j. findDifferenceStep si s1 s2 1 = Some (nd, step) \<and> 1 \<le> j \<and> j \<le> nd - 1 \<and>
           \<not> isValid si (grid_state si s1 step (real_of_int j)) \<and>
           (\<forall>k. 0 \<le> k \<and> k \<le> j - 1 \<longrightarrow> isValid si (grid_state si s1 step (real_of_int k))) \<and>
           lvs' = map_option (\<lambda>_. grid_state si s1 step (real_of_int (j - 1))) lastValidState \<and>
           lvt' = map_option (\<lambda>_. real_of_int (j - 1) / real_of_int nd) lastValidTime"
proof -
  from assms(1,2) obtain nd step where fd: "findDifferenceStep si s1 s2 1 = Some (nd, step)"
    and loop: "incremental_loop si s1 step nd 1 lastValidState lastValidTime [s2] = (False, lvs', lvt', tested)"
    by (auto simp: checkMotionIncremental_def split: option.splits)
  from incremental_loop_False[OF loop]
  obtain j where j: "1 \<le> j" "j < nd" "\<not> isValid si (grid_state si s1 step (real_of_int j))"
    "\<forall>k. 1 \<le> k \<and> k < j \<longrightarrow> isValid si (grid_state si s1 step (real_of_int k))"
    "lvs' = map_option (\<lambda>_. grid_state si s1 step (real_of_int (j - 1))) lastValidState"
    "lvt' = map_option (\<lambda>_. real_of_int (j - 1) / real_of_int nd) lastValidTime"
    by blast
  have "isValid si (grid_state si s1 step (real_of_int k))" if "0 \<le> k" "k \<le> j - 1" for k
  proof (cases "k = 0")
    case True
    with assms(3,4) show ?thesis by (simp add: grid_state_0)
  next
    case False
    with that j(4) show ?thesis by simp
  qed
  with fd j show ?thesis
    by (intro exI[of _ nd] exI[of _ step] exI[of _ j]) auto
qed

theorem checkMotionIncremental_last_valid_witness:
  "checkMotionIncremental blocked_space [0, 0] [10, 0] (Some [0, 0]) (Some 0) =
     Some (False, Some [40 / 11, 0], Some (4 / 11),
           [[10, 0], [10 / 11, 0], [20 / 11, 0], [30 / 11, 0], [40 / 11, 0], [50 / 11, 0]]) \<and>
   isValid blocked_space [10, 0] \<and> isValid blocked_space [0, 0] \<and>
   length [0, 0 :: real] = m_stateDimension blocked_space \<and>
   (\<exists>nd step j. findDifferenceStep blocked_space [0, 0] [10, 0] 1 = Some (nd, step) \<and> 1 \<le> j \<and> j \<le> nd - 1 \<and>
           \<not> isValid blocked_space (grid_state blocked_space [0, 0] step (real_of_int j)) \<and>
           (\<forall>k. 0 \<le> k \<and> k \<le> j - 1 \<longrightarrow> isValid blocked_space (grid_state blocked_space [0, 0] step (real_of_int k))) \<and>
           Some [40 / 11, 0] = map_option (\<lambda>_. grid_state blocked_space [0, 0] step (real_of_int (j - 1))) (Some [0, 0 :: real]) \<and>
           Some (4 / 11) = map_option (\<lambda>_. real_of_int (j - 1) / real_of_int nd) (Some (0::real)))"
proof -
  have v: "isValid blocked_space [10, 0]" "isValid blocked_space [0, 0]"
    by (simp_all add: blocked_valid)
  have l: "length [0, 0 :: real] = m_stateDimension blocked_space"
    by (simp add: blocked_dim)
  note c = checkMotionIncremental_last_valid[OF blocked_linear v l]
  show ?thesis
    apply (intro conjI)
        apply (rule blocked_linear)
       apply (rule v(1))
      apply (rule v(2))
     apply (rule l)
    apply (rule c)
    done
qed

subsection \<open>C8: the incremental validator on an invalid second state\<close>

text \<open>
  Claim C8. If \<open>s2\<close> is invalid, \<^verbatim>\<open>checkMotionIncremental\<close> returns false at once: the only
  state passed to \<^verbatim>\<open>isValid\<close> is \<open>s2\<close> itself, no grid state is computed or tested (the
  call returns even where the difference-step primitive would be undefined), and
  \<^verbatim>\<open>lastValidState\<close> and \<^verbatim>\<open>lastValidTime\<close> keep their contents.
\<close>

theorem checkMotionIncremental_invalid_endpoint:
  "\<not> isValid si s2 \<Longrightarrow>
   checkMotionIncremental si s1 s2 lastValidState lastValidTime =
     Some (False, lastValidState, lastValidTime, [s2])"
  by (simp add: checkMotionIncremental_def)

theorem checkMotionIncremental_invalid_endpoint_witness:
  "\<not> isValid blocked_space [5, 0] \<and>
   checkMotionIncremental blocked_space [0, 0] [5, 0] (Some [7, 7]) (Some 3) =
     Some (False, Some [7, 7], Some 3, [[5, 0]])"
proof -
  have "\<not> isValid blocked_space [5, 0]" by (simp add: blocked_valid)
  with checkMotionIncremental_invalid_endpoint[of blocked_space "[5, 0]" "[0, 0]" "Some [7, 7]" "Some 3"]
  show ?thesis by simp
qed

section \<open>Properties of the path validator\<close>

lemma checkPath_loop_False: "checkPath_loop si states j n False = Some False"
  by simp

lemma checkPath_loop_True:
  "checkPath_loop si states j n True = Some True \<longleftrightarrow>
     (\<forall>i. j \<le> i \<and> i < n \<longrightarrow> checkMotionSubdivision si (states ! i) (states ! (i + 1)) = Some True)"
proof (induction "n - j" arbitrary: j)
  case 0
  then show ?case by auto
next
  case (Suc d)
  then have jn: "j < n" and d: "d = n - (j + 1)" by simp_all
  show ?case
  proof (cases "checkMotionSubdivision si (states ! j) (states ! (j + 1))")
    case None
    with jn show ?thesis by (subst checkPath_loop.simps) force
  next
    case (Some ok)
    show ?thesis
    proof (cases ok)
      case False
      with Some jn show ?thesis
        by (subst checkPath_loop.simps) (force simp: checkPath_loop_False)
    next
      case True
      from Suc.hyps(1)[OF d]
      have IH: "checkPath_loop si states (j + 1) n True = Some True \<longleftrightarrow>
        (\<forall>i. j + 1 \<le> i \<and> i < n \<longrightarrow> checkMotionSubdivision si (states ! i) (states ! (i + 1)) = Some True)" .
      have "checkPath_loop si states j n True = checkPath_loop si states (j + 1) n True"
        using Some True jn by (subst checkPath_loop.simps) simp
      also have "\<dots> = Some True \<longleftrightarrow>
        (\<forall>i. j \<le> i \<and> i < n \<longrightarrow> checkMotionSubdivision si (states ! i) (states ! (i + 1)) = Some True)"
        unfolding IH
      proof
        assume a: "\<forall>i. j + 1 \<le> i \<and> i < n \<longrightarrow> checkMotionSubdivision si (states ! i) (states ! (i + 1)) = Some True"
        show "\<forall>i. j \<le> i \<and> i < n \<longrightarrow> checkMotionSubdivision si (states ! i) (states ! (i + 1)) = Some True"
        proof (intro allI impI)
          fix i assume "j \<le> i \<and> i < n"
          then consider "i = j" | "j + 1 \<le> i \<and> i < n" by linarith
          then show "checkMotionSubdivision si (states ! i) (states ! (i + 1)) = Some True"
            using a Some True by cases auto
        qed
      next
        assume "\<forall>i. j \<le> i \<and> i < n \<longrightarrow> checkMotionSubdivision si (states ! i) (states ! (i + 1)) = Some True"
        then show "\<forall>i. j + 1 \<le> i \<and> i < n \<longrightarrow> checkMotionSubdivision si (states ! i) (states ! (i + 1)) = Some True"
          by simp
      qed
      finally show ?thesis .
    qed
  qed
qed

lemma checkPath_null: "checkPath si None = Some False"
  by (simp add: checkPath_def)

lemma checkPath_empty: "checkPath si (Some []) = Some True"
  by (simp add: checkPath_def)

lemma checkPath_nonempty:
  assumes "states \<noteq> []"
  shows "checkPath si (Some states) = Some True \<longleftrightarrow>
           isValid si (states ! 0) \<and>
           (\<forall>j. j + 1 < length states \<longrightarrow>
                checkMotionSubdivision si (states ! j) (states ! (j + 1)) = Some True)"
proof -
  have "(\<forall>i. 0 \<le> i \<and> i < length states - 1 \<longrightarrow> checkMotionSubdivision si (states ! i) (states ! (i + 1)) = Some True)
     \<longleftrightarrow> (\<forall>j. j + 1 < length states \<longrightarrow> checkMotionSubdivision si (states ! j) (states ! (j + 1)) = Some True)"
    by (simp add: less_diff_conv)
  with assms show ?thesis
    by (simp add: checkPath_def checkPath_loop_True del: checkPath_loop.simps)
qed

subsection \<open>C5: the result of the path validator\<close>

text \<open>
  Claim C5 says that \<^verbatim>\<open>checkPath\<close> returns false on a null path and on an empty path.
  On the empty path the code returns true: \<^verbatim>\<open>result\<close> starts as \<^verbatim>\<open>path != NULL\<close> and the
  block that could reset it is guarded by \<^verbatim>\<open>path->states.size() > 0\<close>.
\<close>

theorem checkPath_empty_counterexample:
  "checkPath corridor_space (Some []) \<noteq> Some False"
  by (simp add: checkPath_empty)

text \<open>
  Claim C5, amended. \<^verbatim>\<open>checkPath\<close> returns false on a null path and true on an empty
  path; on a non-empty path it returns true if and only if the first state is valid
  and \<^verbatim>\<open>checkMotionSubdivision\<close> returns true on every pair of consecutive states.
\<close>

theorem checkPath_result:
  "checkPath si None = Some False \<and>
   checkPath si (Some []) = Some True \<and>
   (states \<noteq> [] \<longrightarrow>
      (checkPath si (Some states) = Some True \<longleftrightarrow>
         isValid si (states ! 0) \<and>
         (\<forall>j. j + 1 < length states \<longrightarrow>
              checkMotionSubdivision si (states ! j) (states ! (j + 1)) = Some True)))"
  using checkPath_null checkPath_empty checkPath_nonempty by blast

theorem checkPath_result_witness:
  "[[0, 0], [10, 0 :: real]] \<noteq> [] \<and>
   isValid corridor_space ([[0, 0], [10, 0]] ! 0) \<and>
   checkMotionSubdivision corridor_space ([[0, 0], [10, 0]] ! 0) ([[0, 0], [10, 0]] ! 1) = Some True \<and>
   checkPath corridor_space (Some [[0, 0], [10, 0]]) = Some True \<and>
   checkPath blocked_space (Some [[0, 0], [10, 0]]) \<noteq> Some True"
proof -
  have "\<forall>j. j + 1 < length [[0, 0], [10, 0 :: real]] \<longrightarrow>
          checkMotionSubdivision corridor_space ([[0, 0], [10, 0]] ! j) ([[0, 0], [10, 0]] ! (j + 1)) = Some True"
    by (simp add: corridor_bisect)
  moreover have "\<not> (\<forall>j. j + 1 < length [[0, 0], [10, 0 :: real]] \<longrightarrow>
          checkMotionSubdivision blocked_space ([[0, 0], [10, 0]] ! j) ([[0, 0], [10, 0]] ! (j + 1)) = Some True)"
    by (simp add: blocked_bisect)
  ultimately show ?thesis
    using checkPath_result[of corridor_space "[[0, 0], [10, 0]]"]
      checkPath_result[of blocked_space "[[0, 0], [10, 0]]"]
    by (simp add: corridor_valid corridor_bisect)
qed

section \<open>Properties of the motion states\<close>

lemma motion_states_loop_Some:
  assumes "motion_states_loop si s1 step nd alloc j states added = Some (states', added')"
    and "int added = j"
  shows "length states' = length states \<and>
         int added' = max j (min nd (int (length states))) \<and>
         (\<forall>k<length states. states' ! k =
            (if j \<le> int k \<and> k < added' then Some (grid_state si s1 step (real k)) else states ! k))"
  using assms
proof (induction si s1 step nd alloc j states added rule: motion_states_loop.induct)
  case (1 si s1 step nd alloc j states added)
  show ?case
  proof (cases "j < nd \<and> added < length states")
    case False
    with "1.prems" have "states' = states" "added' = added"
      by (simp_all add: motion_states_loop.simps[of si s1 step nd alloc j states added])
    with False "1.prems"(2) show ?thesis by auto
  next
    case True
    let ?st = "if alloc then states[nat j := Some (new_State si)] else states"
    let ?st' = "?st[nat j := Some (grid_state si s1 step (real_of_int j))]"
    from True "1.prems"(2) have j0: "\<not> (j < 0 \<or> length states \<le> nat j)" by auto
    note unf = motion_states_loop.simps[of si s1 step nd alloc j states added]
    from "1.prems"(1) True j0 obtain v where v: "?st ! nat j = Some v"
      unfolding unf by (auto simp: Let_def split: option.splits if_splits)
    from "1.prems"(1) True j0 v
    have rec: "motion_states_loop si s1 step nd alloc (j + 1) ?st' (added + 1) = Some (states', added')"
      unfolding unf by (simp add: Let_def split: if_splits)
    have "int (added + 1) = j + 1" using "1.prems"(2) by simp
    from "1.IH"[OF True j0 refl refl v rec this]
    have IH: "length states' = length ?st'"
      "int added' = max (j + 1) (min nd (int (length ?st')))"
      "\<forall>k<length ?st'. states' ! k =
            (if j + 1 \<le> int k \<and> k < added' then Some (grid_state si s1 step (real k)) else ?st' ! k)"
      by simp_all
    have len: "length ?st' = length states" by simp
    from True "1.prems"(2) have m: "max (j + 1) (min nd (int (length states))) = max j (min nd (int (length states)))"
      by simp
    have "states' ! k = (if j \<le> int k \<and> k < added' then Some (grid_state si s1 step (real k)) else states ! k)"
      if k: "k < length states" for k
    proof (cases "int k = j")
      case eq: True
      then have kj: "k = nat j" by simp
      from IH(2) True "1.prems"(2) len eq have "int k < int added'" by linarith
      then have "k < added'" by simp
      moreover from IH(3) k len eq have "states' ! k = ?st' ! k" by simp
      moreover have rk: "real_of_int j = real k"
        unfolding eq[symmetric] by simp
      have "?st' ! nat j = Some (grid_state si s1 step (real_of_int j))"
        using j0 by simp
      then have "?st' ! k = Some (grid_state si s1 step (real k))"
        unfolding rk kj[symmetric] .
      ultimately show ?thesis using eq by simp
    next
      case ne: False
      then have "nat j \<noteq> k" using j0 by auto
      then have "?st' ! k = states ! k" by simp
      with IH(3) k len ne show ?thesis by auto
    qed
    with IH(1,2) len m show ?thesis by simp
  qed
qed

lemma findDifferenceStep_nd_ge_1:
  "findDifferenceStep si s1 s2 rho = Some (nd, step) \<Longrightarrow> 1 \<le> nd"
  using findDifferenceStep_Some(1)[of si s1 s2 rho nd step] spec_nd_ge_1[of si s1 s2 rho] by simp

lemma motion_states_loop_empty:
  "motion_states_loop si s1 step nd alloc j [] added = Some ([], added)"
  by (subst motion_states_loop.simps) simp

lemma motion_states_loop_alloc_defined:
  "int added = j \<Longrightarrow> \<exists>r. motion_states_loop si s1 step nd True j states added = Some r"
proof (induction si s1 step nd "True" j states added rule: motion_states_loop.induct)
  case (1 si s1 step nd j states added)
  show ?case
  proof (cases "j < nd \<and> added < length states")
    case False
    then show ?thesis by (subst motion_states_loop.simps) auto
  next
    case True
    let ?st = "states[nat j := Some (new_State si)]"
    let ?st' = "?st[nat j := Some (grid_state si s1 step (real_of_int j))]"
    from True "1.prems" have j0: "\<not> (j < 0 \<or> length states \<le> nat j)" by auto
    then have v: "?st ! nat j = Some (new_State si)" by simp
    have "int (added + 1) = j + 1" using "1.prems" by simp
    from "1.hyps"[OF True j0 refl _ v this]
    obtain r where "motion_states_loop si s1 step nd True (j + 1) ?st' (added + 1) = Some r"
      by auto
    with True j0 v show ?thesis
      by (subst motion_states_loop.simps) (simp add: Let_def)
  qed
qed

lemma motion_states_alloc_length:
  "motion_states_alloc si nd alloc states = Some states1 \<Longrightarrow>
   length states1 = (if alloc then nat (nd + 1) else length states)"
  by (auto simp: motion_states_alloc_def resize_states_def split: if_splits)

lemma motion_states_alloc_False:
  "motion_states_alloc si nd False states = Some states"
  by (simp add: motion_states_alloc_def)

lemma motion_states_first_Some:
  assumes "motion_states_first si s1 states = Some (states', added)"
  shows "length states' = length states"
    and "added = (if length states > 0 then 1 else 0)"
    and "\<forall>k<length states. states' ! k = (if k = 0 then Some (copyState si s1) else states ! k)"
  using assms
  by (auto simp: motion_states_first_def nth_list_update split: if_splits option.splits)

lemma motion_states_last_Some:
  assumes "motion_states_last si s2 alloc states added = Some (states', added')"
  shows "length states' = length states"
    and "added' = (if added < length states then added + 1 else added)"
    and "\<forall>k<length states. states' ! k = (if k = added then Some (copyState si s2) else states ! k)"
  using assms
  by (auto simp: motion_states_last_def Let_def nth_list_update split: if_splits option.splits)


lemma getMotionStates_Some:
  assumes g: "getMotionStates si s1 s2 states alloc = Some (states', added)"
    and fd: "findDifferenceStep si s1 s2 1 = Some (nd, step)"
  shows "length states' = (if alloc then nat (nd + 1) else length states)"
    and "int added = min (int (length states')) (nd + 1)"
    and "\<forall>k<length states'. states' ! k =
           (if k = 0 then Some (copyState si s1)
            else if int k < nd then Some (grid_state si s1 step (real k))
            else if int k = nd then Some (copyState si s2)
            else states ! k)"
proof -
  have nd1: "1 \<le> nd" by (rule findDifferenceStep_nd_ge_1[OF fd])
  from g fd obtain states1 states2 added2 states3 added3 where
    al: "motion_states_alloc si nd alloc states = Some states1"
    and fi: "motion_states_first si s1 states1 = Some (states2, added2)"
    and lo: "motion_states_loop si s1 step nd alloc 1 states2 added2 = Some (states3, added3)"
    and la: "motion_states_last si s2 alloc states3 added3 = Some (states', added)"
    by (auto simp: getMotionStates_def split: option.splits)
  note len1 = motion_states_alloc_length[OF al]
  note first = motion_states_first_Some[OF fi]
  note last = motion_states_last_Some[OF la]
  have keep: "states1 ! k = states ! k" if "int k > nd" "k < length states1" for k
  proof (cases alloc)
    case True
    with len1 that show ?thesis by simp
  next
    case False
    with al show ?thesis by (simp add: motion_states_alloc_False)
  qed
  have all: "length states' = length states1 \<and> int added = min (int (length states1)) (nd + 1) \<and>
             (\<forall>k<length states1. states' ! k =
               (if k = 0 then Some (copyState si s1)
                else if int k < nd then Some (grid_state si s1 step (real k))
                else if int k = nd then Some (copyState si s2)
                else states ! k))"
  proof (cases "length states1 > 0")
    case False
    then have e: "states1 = []" by simp
    with first have "states2 = []" "added2 = 0" by simp_all
    with lo have "states3 = []" "added3 = 0" by (simp_all add: motion_states_loop_empty)
    with last have "states' = []" "added = 0" by simp_all
    with e nd1 show ?thesis by simp
  next
    case True
    with first have a2: "added2 = 1" and l2: "length states2 = length states1" by simp_all
    from motion_states_loop_Some[OF lo[unfolded a2]] nd1 True l2
    have l3: "length states3 = length states1"
      and a3: "int added3 = min nd (int (length states1))"
      and c3: "\<forall>k<length states1. states3 ! k =
            (if 1 \<le> int k \<and> k < added3 then Some (grid_state si s1 step (real k)) else states2 ! k)"
      by auto
    show ?thesis
    proof (cases "added3 < length states3")
      case False
      with last have r: "states' = states3 \<or> length states' = length states3" "added = added3"
        by simp_all
      from False l3 a3 have le: "int (length states1) \<le> nd" by linarith
      then have a: "added3 = length states1" using a3 by simp
      have "states' ! k = (if k = 0 then Some (copyState si s1)
                else if int k < nd then Some (grid_state si s1 step (real k))
                else if int k = nd then Some (copyState si s2)
                else states ! k)" if k: "k < length states1" for k
      proof -
        from last(3) k l3 False a have "states' ! k = states3 ! k" by simp
        with c3 first(3) k a le show ?thesis by auto
      qed
      with r(2) last(1) l3 a3 le show ?thesis by simp
    next
      case lt: True
      from lt l3 a3 have a: "int added3 = nd" "nd < int (length states1)" by linarith+
      have "states' ! k = (if k = 0 then Some (copyState si s1)
                else if int k < nd then Some (grid_state si s1 step (real k))
                else if int k = nd then Some (copyState si s2)
                else states ! k)" if k: "k < length states1" for k
      proof (cases "k = added3")
        case True
        with last(3) k l3 a nd1 show ?thesis by auto
      next
        case False
        with last(3) k l3 have "states' ! k = states3 ! k" by simp
        with c3 first(3) k a False keep[OF _ k] show ?thesis by auto
      qed
      with last(1,2) lt l3 a show ?thesis by auto
    qed
  qed
  from all len1 show "length states' = (if alloc then nat (nd + 1) else length states)" by simp
  from all show "int added = min (int (length states')) (nd + 1)" by simp
  from all show "\<forall>k<length states'. states' ! k =
           (if k = 0 then Some (copyState si s1)
            else if int k < nd then Some (grid_state si s1 step (real k))
            else if int k = nd then Some (copyState si s2)
            else states ! k)"
    by simp
qed

lemma getMotionStates_alloc_defined:
  assumes fd: "findDifferenceStep si s1 s2 1 = Some (nd, step)"
    and ov: "nd \<noteq> INT_MAX"
  shows "\<exists>r. getMotionStates si s1 s2 states True = Some r"
proof -
  have nd1: "1 \<le> nd" by (rule findDifferenceStep_nd_ge_1[OF fd])
  let ?states1 = "(resize_states (nat (nd + 1)) states)[0 := Some (new_State si)]"
  let ?states2 = "?states1[0 := Some (copyState si s1)]"
  from ov have al: "motion_states_alloc si nd True states = Some ?states1"
    by (simp add: motion_states_alloc_def)
  from nd1 have len: "0 < length ?states1" by (simp add: resize_states_def)
  then have fi: "motion_states_first si s1 ?states1 = Some (?states2, 1)"
    by (simp add: motion_states_first_def)
  obtain states3 added3 where
    lo: "motion_states_loop si s1 step nd True 1 ?states2 1 = Some (states3, added3)"
    using motion_states_loop_alloc_defined[of 1 1 si s1 step nd ?states2] by auto
  have "\<exists>r. motion_states_last si s2 True states3 added3 = Some r"
    by (simp add: motion_states_last_def)
  with fd al fi lo show ?thesis
    by (simp add: getMotionStates_def)
qed

lemma corridor_copyState: "copyState corridor_space [a, b] = [a, b]"
  by (simp add: copyState_def corridor_dim upt_2)

lemma corridor_grid_state:
  "grid_state corridor_space [0, 0] [10 / 11, 0] x = [10 * x / 11, 0]"
  by (simp add: grid_state_def corridor_dim upt_2)

lemma corridor_motion_states:
  "getMotionStates corridor_space [0, 0] [10, 0] states True =
     Some (map (\<lambda>k. Some [10 * real k / 11, 0]) [0..<12], 12)"
proof -
  have ov: "(11::int) \<noteq> INT_MAX" by (simp add: INT_MAX_def)
  from getMotionStates_alloc_defined[OF corridor_step ov, of states]
  obtain states' added where
    g: "getMotionStates corridor_space [0, 0] [10, 0] states True = Some (states', added)"
    by auto
  note r = getMotionStates_Some[OF g corridor_step]
  from r(1) have len: "length states' = 12" by simp
  with r(2) have added: "added = 12" by simp
  have "states' = map (\<lambda>k. Some [10 * real k / 11, 0]) [0..<12]"
  proof (rule nth_equalityI)
    show "length states' = length (map (\<lambda>k. Some [10 * real k / 11, 0 :: real]) [0..<12])"
      using len by simp
  next
    fix k assume "k < length states'"
    with len have k: "k < 12" by simp
    with r(3) len have "states' ! k =
           (if k = 0 then Some (copyState corridor_space [0, 0])
            else if int k < 11 then Some (grid_state corridor_space [0, 0] [10 / 11, 0] (real k))
            else if int k = 11 then Some (copyState corridor_space [10, 0])
            else states ! k)" by simp
    also have "\<dots> = Some [10 * real k / 11, 0]"
      using k by (auto simp: corridor_copyState corridor_grid_state)
    finally show "states' ! k = map (\<lambda>k. Some [10 * real k / 11, 0]) [0..<12] ! k"
      using k by simp
  qed
  with g added show ?thesis by simp
qed

lemma corridor_short_buffer:
  "getMotionStates corridor_space [0, 0] [10, 0] [Some [5, 5], Some [5, 5], Some [5, 5]] False =
     Some ([Some [0, 0], Some [10 / 11, 0], Some [20 / 11, 0]], 3)"
  by (simp add: getMotionStates_def corridor_step motion_states_alloc_def motion_states_first_def
      motion_states_last_def motion_states_loop.simps corridor_copyState corridor_grid_state Let_def)

subsection \<open>C6: the number of states along the free corridor\<close>

text \<open>
  Claim C6 says that in the space of two linear axes with bounds \<open>[0, 10]\<close> and
  resolution 1, \<^verbatim>\<open>getMotionStates\<close> on \<open>s1 = (0, 0)\<close>, \<open>s2 = (10, 0)\<close> with \<^verbatim>\<open>alloc = true\<close> returns
  11 states. The count is \<open>nd + 1\<close>, and the difference-step primitive gives
  \<open>nd = 1 + \<lfloor>10 / 1\<rfloor> = 11\<close>.
\<close>

theorem corridor_motion_states_counterexample:
  "map_option snd (getMotionStates corridor_space [0, 0] [10, 0] [] True) \<noteq> Some 11"
  by (simp add: corridor_motion_states)

text \<open>
  Claim C6, amended. In that space, \<^verbatim>\<open>getMotionStates\<close> on \<open>s1 = (0, 0)\<close>, \<open>s2 = (10, 0)\<close> with
  \<^verbatim>\<open>alloc = true\<close> returns 12, whatever the vector held before: the vector is resized
  to \<open>nd + 1 = 12\<close> slots and every slot is populated, slot \<open>k\<close> with \<open>(10k/11, 0)\<close>, so
  that the first state is \<open>s1\<close> and the last one is \<open>s2\<close>.
\<close>

theorem corridor_motion_states_count:
  "getMotionStates corridor_space [0, 0] [10, 0] states True =
     Some (map (\<lambda>k. Some [10 * real k / 11, 0]) [0..<12], 12) \<and>
   length (map (\<lambda>k. Some [10 * real k / 11, 0 :: real]) [0..<12]) = 12 \<and>
   map (\<lambda>k. Some [10 * real k / 11, 0 :: real]) [0..<12] ! 0 = Some [0, 0] \<and>
   map (\<lambda>k. Some [10 * real k / 11, 0 :: real]) [0..<12] ! 11 = Some [10, 0]"
  by (simp add: corridor_motion_states)

subsection \<open>C10: the count returned by \<^verbatim>\<open>getMotionStates\<close>\<close>

text \<open>
  Claim C10. Whenever \<^verbatim>\<open>getMotionStates\<close> returns, the count is \<open>min(L, nd + 1)\<close>, where
  \<open>L\<close> is the length of the vector after the optional resize (\<open>nd + 1\<close> with \<^verbatim>\<open>alloc\<close>, the
  length of the given vector without) and \<open>nd\<close> the subdivision count at factor 1.0.
  Without \<^verbatim>\<open>alloc\<close> and with fewer than \<open>nd + 1\<close> slots, slot 0 holds the copy of \<open>s1\<close> and
  every other slot \<open>k\<close> holds the interior grid state \<open>s1 + k \<sqdot> step\<close>: no slot is left for
  \<open>s2\<close>, which is not written.
\<close>

theorem getMotionStates_count:
  assumes "getMotionStates si s1 s2 states alloc = Some (states', added)"
    and "findDifferenceStep si s1 s2 1 = Some (nd, step)"
  shows "length states' = (if alloc then nat (nd + 1) else length states) \<and>
         int added = min (int (length states')) (nd + 1) \<and>
         (\<not> alloc \<and> int (length states) < nd + 1 \<longrightarrow>
            (\<forall>k<length states'. states' ! k =
               Some (if k = 0 then copyState si s1 else grid_state si s1 step (real k))))"
proof -
  note r = getMotionStates_Some[OF assms]
  have "states' ! k = Some (if k = 0 then copyState si s1 else grid_state si s1 step (real k))"
    if "\<not> alloc" "int (length states) < nd + 1" "k < length states'" for k
    using r(1,3) that by auto
  with r(1,2) show ?thesis by blast
qed

theorem getMotionStates_count_witness:
  "getMotionStates corridor_space [0, 0] [10, 0] [Some [5, 5], Some [5, 5], Some [5, 5]] False =
     Some ([Some [0, 0], Some [10 / 11, 0], Some [20 / 11, 0]], 3) \<and>
   findDifferenceStep corridor_space [0, 0] [10, 0] 1 = Some (11, [10 / 11, 0]) \<and>
   int (length [Some [5, 5], Some [5, 5], Some [5, 5 :: real]]) < 11 + 1 \<and>
   int 3 = min (int (length [Some [0, 0], Some [10 / 11, 0], Some [20 / 11, 0 :: real]])) (11 + 1) \<and>
   [Some [0, 0], Some [10 / 11, 0], Some [20 / 11, 0]] ! 2 =
     Some (grid_state corridor_space [0, 0] [10 / 11, 0] (real 2)) \<and>
   Some [10, 0] \<notin> set [Some [0, 0], Some [10 / 11, 0], Some [20 / 11, 0 :: real]]"
  using getMotionStates_count[OF corridor_short_buffer corridor_step]
  by (simp add: corridor_short_buffer corridor_step corridor_grid_state)

section \<open>Properties of the repair of the input states\<close>

lemma fix_state_ok:
  "satisfiesBounds si st \<Longrightarrow> isValid si st \<Longrightarrow>
   fix_state rng si st rho attempts r = Some (st, False)"
  by (simp add: fix_state_def)

lemma fix_state_search:
  assumes "\<not> satisfiesBounds si st \<or> \<not> isValid si st"
  shows "fix_state rng si st rho attempts r =
          (case searchValidNearby rng si st rho attempts r of
              None \<Rightarrow> None
            | Some (found, temp) \<Rightarrow>
                if found then Some (copyState si temp, False) else Some (st, True))"
  using assms by (simp add: fix_state_def Let_def)

lemma fix_state_cases:
  assumes "fix_state rng si st rho attempts r = Some (st', warned)"
  shows "warned \<longrightarrow> st' = st"
    and "warned \<longleftrightarrow> (\<not> satisfiesBounds si st \<or> \<not> isValid si st) \<and>
           map_option fst (searchValidNearby rng si st rho attempts r) = Some False"
proof -
  show "warned \<longrightarrow> st' = st"
  proof (cases "\<not> satisfiesBounds si st \<or> \<not> isValid si st")
    case False
    with assms show ?thesis by (simp add: fix_state_ok)
  next
    case True
    from assms show ?thesis unfolding fix_state_search[OF True]
      by (cases "searchValidNearby rng si st rho attempts r") (auto split: if_splits)
  qed
  show "warned \<longleftrightarrow> (\<not> satisfiesBounds si st \<or> \<not> isValid si st) \<and>
           map_option fst (searchValidNearby rng si st rho attempts r) = Some False"
  proof (cases "\<not> satisfiesBounds si st \<or> \<not> isValid si st")
    case False
    with assms show ?thesis by (simp add: fix_state_ok)
  next
    case True
    from assms show ?thesis unfolding fix_state_search[OF True]
      using True by (cases "searchValidNearby rng si st rho attempts r") (auto split: if_splits)
  qed
qed

lemma fix_start_states_step_None:
  assumes "i < length startStates" and "startStates ! i = None"
  shows "fix_start_states rng si new_rng rhoStart attempts i startStates warnings =
         fix_start_states rng si new_rng rhoStart attempts (i + 1) startStates warnings"
  using assms by (subst fix_start_states.simps) simp

lemma fix_start_states_step_Some:
  assumes "i < length startStates" and "startStates ! i = Some st"
    and "fix_state rng si st rhoStart attempts (new_rng i) = Some (st', warned)"
  shows "fix_start_states rng si new_rng rhoStart attempts i startStates warnings =
         fix_start_states rng si new_rng rhoStart attempts (i + 1) (startStates[i := Some st'])
           (warnings @ (if warned then [Unable_to_fix_start_state i] else []))"
  using assms by (subst fix_start_states.simps) simp

lemma fix_start_states_step_undefined:
  assumes "i < length startStates" and "startStates ! i = Some st"
    and "fix_state rng si st rhoStart attempts (new_rng i) = None"
  shows "fix_start_states rng si new_rng rhoStart attempts i startStates warnings = None"
  using assms by (subst fix_start_states.simps) simp

lemma fix_start_states_done:
  assumes "\<not> i < length startStates"
  shows "fix_start_states rng si new_rng rhoStart attempts i startStates warnings =
         Some (startStates, warnings)"
  using assms by (subst fix_start_states.simps) simp


lemma fix_start_states_length:
  "fix_start_states rng si new_rng rhoStart attempts i startStates warnings = Some (startStates', warnings')
   \<Longrightarrow> length startStates' = length startStates"
proof (induction rng si new_rng rhoStart attempts i startStates warnings rule: fix_start_states.induct)
  case (1 rng si new_rng rhoStart attempts i startStates warnings)
  show ?case
  proof (cases "i < length startStates")
    case False
    with "1.prems" show ?thesis by (simp add: fix_start_states_done)
  next
    case True
    show ?thesis
    proof (cases "startStates ! i")
      case None
      from "1.prems" have "fix_start_states rng si new_rng rhoStart attempts (i + 1) startStates warnings
                   = Some (startStates', warnings')"
        unfolding fix_start_states_step_None[OF True None] .
      from "1.IH"(1)[OF True None this] show ?thesis .
    next
      case (Some st)
      show ?thesis
      proof (cases "fix_state rng si st rhoStart attempts (new_rng i)")
        case undef: None
        from "1.prems"(1) show ?thesis
          unfolding fix_start_states_step_undefined[where new_rng=new_rng, OF True Some undef] by simp
      next
        case fs: (Some p)
        obtain st' warned where p: "p = (st', warned)" by (cases p)
        note fs' = fs[unfolded p]
        from "1.prems" have "fix_start_states rng si new_rng rhoStart attempts (i + 1)
             (startStates[i := Some st'])
             (warnings @ (if warned then [Unable_to_fix_start_state i] else []))
             = Some (startStates', warnings')"
          unfolding fix_start_states_step_Some[where new_rng=new_rng, OF True Some fs'] .
        from "1.IH"(2)[OF True Some fs' refl this] show ?thesis by simp
      qed
    qed
  qed
qed

lemma fix_start_states_nth:
  "fix_start_states rng si new_rng rhoStart attempts i startStates warnings = Some (startStates', warnings')
   \<Longrightarrow> k < length startStates \<Longrightarrow>
   startStates' ! k =
     (if k < i then startStates ! k
      else (case startStates ! k of
              None \<Rightarrow> None
            | Some st \<Rightarrow> map_option fst (fix_state rng si st rhoStart attempts (new_rng k))))"
proof (induction rng si new_rng rhoStart attempts i startStates warnings rule: fix_start_states.induct)
  case (1 rng si new_rng rhoStart attempts i startStates warnings)
  show ?case
  proof (cases "i < length startStates")
    case False
    with "1.prems" show ?thesis by (simp add: fix_start_states_done)
  next
    case True
    show ?thesis
    proof (cases "startStates ! i")
      case None
      from "1.prems"(1) have "fix_start_states rng si new_rng rhoStart attempts (i + 1) startStates warnings
                   = Some (startStates', warnings')"
        unfolding fix_start_states_step_None[OF True None] .
      from "1.IH"(1)[OF True None this "1.prems"(2)]
      have IH: "startStates' ! k =
        (if k < i + 1 then startStates ! k
         else (case startStates ! k of
              None \<Rightarrow> None
            | Some st \<Rightarrow> map_option fst (fix_state rng si st rhoStart attempts (new_rng k))))" .
      show ?thesis
      proof (cases "k = i")
        case True
        with IH None show ?thesis by simp
      next
        case False
        then have "k < i + 1 \<longleftrightarrow> k < i" by auto
        with IH show ?thesis by simp
      qed
    next
      case (Some st)
      show ?thesis
      proof (cases "fix_state rng si st rhoStart attempts (new_rng i)")
        case undef: None
        from "1.prems"(1) show ?thesis
          unfolding fix_start_states_step_undefined[where new_rng=new_rng, OF True Some undef] by simp
      next
        case fs: (Some p)
        obtain st' warned where p: "p = (st', warned)" by (cases p)
        note fs' = fs[unfolded p]
        let ?ss = "startStates[i := Some st']"
        from "1.prems"(1) have "fix_start_states rng si new_rng rhoStart attempts (i + 1) ?ss
             (warnings @ (if warned then [Unable_to_fix_start_state i] else []))
             = Some (startStates', warnings')"
          unfolding fix_start_states_step_Some[where new_rng=new_rng, OF True Some fs'] .
        from "1.IH"(2)[OF True Some fs' refl this] "1.prems"(2)
        have IH: "startStates' ! k =
          (if k < i + 1 then ?ss ! k
           else (case ?ss ! k of
              None \<Rightarrow> None
            | Some st \<Rightarrow> map_option fst (fix_state rng si st rhoStart attempts (new_rng k))))"
          by simp
        show ?thesis
        proof (cases "k = i")
          case True
          with IH "1.prems"(2) Some fs' show ?thesis by simp
        next
          case False
          then have "k < i + 1 \<longleftrightarrow> k < i" "?ss ! k = startStates ! k" by auto
          with IH show ?thesis by simp
        qed
      qed
    qed
  qed
qed

lemma fix_start_states_warnings_mono:
  "fix_start_states rng si new_rng rhoStart attempts i startStates warnings = Some (startStates', warnings')
   \<Longrightarrow> set warnings \<subseteq> set warnings'"
proof (induction rng si new_rng rhoStart attempts i startStates warnings rule: fix_start_states.induct)
  case (1 rng si new_rng rhoStart attempts i startStates warnings)
  show ?case
  proof (cases "i < length startStates")
    case False
    with "1.prems" show ?thesis by (simp add: fix_start_states_done)
  next
    case True
    show ?thesis
    proof (cases "startStates ! i")
      case None
      from "1.prems" have "fix_start_states rng si new_rng rhoStart attempts (i + 1) startStates warnings
                   = Some (startStates', warnings')"
        unfolding fix_start_states_step_None[OF True None] .
      from "1.IH"(1)[OF True None this] show ?thesis .
    next
      case (Some st)
      show ?thesis
      proof (cases "fix_state rng si st rhoStart attempts (new_rng i)")
        case undef: None
        from "1.prems"(1) show ?thesis
          unfolding fix_start_states_step_undefined[where new_rng=new_rng, OF True Some undef] by simp
      next
        case fs: (Some p)
        obtain st' warned where p: "p = (st', warned)" by (cases p)
        note fs' = fs[unfolded p]
        from "1.prems" have "fix_start_states rng si new_rng rhoStart attempts (i + 1)
             (startStates[i := Some st'])
             (warnings @ (if warned then [Unable_to_fix_start_state i] else []))
             = Some (startStates', warnings')"
          unfolding fix_start_states_step_Some[where new_rng=new_rng, OF True Some fs'] .
        from "1.IH"(2)[OF True Some fs' refl this] show ?thesis by auto
      qed
    qed
  qed
qed

lemma fix_start_states_warnings:
  "fix_start_states rng si new_rng rhoStart attempts i startStates warnings = Some (startStates', warnings')
   \<Longrightarrow> i \<le> k \<Longrightarrow> k < length startStates \<Longrightarrow> startStates ! k = Some st0 \<Longrightarrow>
   fix_state rng si st0 rhoStart attempts (new_rng k) = Some (st0', True) \<Longrightarrow>
   Unable_to_fix_start_state k \<in> set warnings'"
proof (induction rng si new_rng rhoStart attempts i startStates warnings rule: fix_start_states.induct)
  case (1 rng si new_rng rhoStart attempts i startStates warnings)
  from "1.prems"(2,3) have True: "i < length startStates" by simp
  show ?case
  proof (cases "startStates ! i")
    case None
    with "1.prems"(4) have ne: "k \<noteq> i" by auto
    with "1.prems"(2) have le: "i + 1 \<le> k" by simp
    from "1.prems"(1) have "fix_start_states rng si new_rng rhoStart attempts (i + 1) startStates warnings
                   = Some (startStates', warnings')"
      unfolding fix_start_states_step_None[OF True None] .
    from "1.IH"(1)[OF True None this le "1.prems"(3,4,5)] show ?thesis .
  next
    case (Some st)
    show ?thesis
    proof (cases "fix_state rng si st rhoStart attempts (new_rng i)")
      case undef: None
      from "1.prems"(1) show ?thesis
        unfolding fix_start_states_step_undefined[where new_rng=new_rng, OF True Some undef] by simp
    next
      case fs: (Some p)
      obtain st' warned where p: "p = (st', warned)" by (cases p)
      note fs' = fs[unfolded p]
      let ?ss = "startStates[i := Some st']"
      let ?ws = "warnings @ (if warned then [Unable_to_fix_start_state i] else [])"
      from "1.prems"(1) have rec: "fix_start_states rng si new_rng rhoStart attempts (i + 1) ?ss ?ws
             = Some (startStates', warnings')"
        unfolding fix_start_states_step_Some[where new_rng=new_rng, OF True Some fs'] .
      show ?thesis
      proof (cases "k = i")
        case True
        with Some fs' "1.prems"(4,5) have "warned" by simp
        then have "Unable_to_fix_start_state k \<in> set ?ws" using True by simp
        with fix_start_states_warnings_mono[OF rec] show ?thesis by auto
      next
        case False
        with "1.prems"(2) have le: "i + 1 \<le> k" by simp
        from False "1.prems"(3,4) have k: "k < length ?ss" "?ss ! k = Some st0" by simp_all
        from "1.IH"(2)[OF True Some fs' refl rec le k "1.prems"(5)] show ?thesis .
      qed
    qed
  qed
qed

lemma fix_state_failure:
  assumes "\<not> satisfiesBounds si st \<or> \<not> isValid si st"
    and "map_option fst (searchValidNearby rng si st rho attempts r) = Some False"
  shows "fix_state rng si st rho attempts r = Some (st, True)"
proof -
  from assms(2) obtain temp where "searchValidNearby rng si st rho attempts r = Some (False, temp)"
    by (cases "searchValidNearby rng si st rho attempts r") auto
  then show ?thesis unfolding fix_state_search[OF assms(1)] by simp
qed

lemma fixInvalidInputStates_Some:
  assumes "fixInvalidInputStates rng si new_rng inp rhoStart rhoGoal attempts = Some (inp', warnings)"
  obtains startStates' ws where
    "fix_start_states rng si new_rng rhoStart attempts 0 (m_startStates inp) [] = Some (startStates', ws)"
    and "m_startStates inp' = startStates'"
    and "set ws \<subseteq> set warnings"
    and "\<And>st. m_goal inp = GoalState (Some st) \<Longrightarrow>
           \<exists>st' warned. fix_state rng si st rhoGoal attempts (new_rng (length (m_startStates inp))) = Some (st', warned) \<and>
             m_goal inp' = GoalState (Some st') \<and> (warned \<longrightarrow> Unable_to_fix_goal_state \<in> set warnings)"
proof -
  from assms obtain startStates' ws where
    fs: "fix_start_states rng si new_rng rhoStart attempts 0 (m_startStates inp) [] = Some (startStates', ws)"
    by (auto simp: fixInvalidInputStates_def split: if_splits option.splits)
  from assms fs have rest:
    "(case m_goal inp of
        GoalState (Some st) \<Rightarrow>
          (case fix_state rng si st rhoGoal attempts (new_rng (length (m_startStates inp))) of
             None \<Rightarrow> None
           | Some (st', warned) \<Rightarrow>
               Some (inp\<lparr>m_startStates := startStates', m_goal := GoalState (Some st')\<rparr>,
                     ws @ (if warned then [Unable_to_fix_goal_state] else [])))
      | _ \<Rightarrow> Some (inp\<lparr>m_startStates := startStates'\<rparr>, ws)) = Some (inp', warnings)"
    by (simp add: fixInvalidInputStates_def split: if_splits)
  show thesis
  proof (cases "m_goal inp")
    case OtherGoal
    with rest have "m_startStates inp' = startStates'" "warnings = ws" by auto
    with fs OtherGoal show ?thesis by (intro that[of startStates' ws]) auto
  next
    case (GoalState p)
    show ?thesis
    proof (cases p)
      case None
      with rest GoalState have "m_startStates inp' = startStates'" "warnings = ws" by auto
      with fs GoalState None show ?thesis by (intro that[of startStates' ws]) auto
    next
      case (Some st)
      with rest GoalState obtain st' warned where
        g: "fix_state rng si st rhoGoal attempts (new_rng (length (m_startStates inp))) = Some (st', warned)"
        by (auto split: option.splits)
      with rest GoalState Some have
        "inp' = inp\<lparr>m_startStates := startStates', m_goal := Goal.GoalState (Some st')\<rparr>"
        "warnings = ws @ (if warned then [Unable_to_fix_goal_state] else [])"
        by auto
      with fs GoalState Some g show ?thesis by (intro that[of startStates' ws]) auto
    qed
  qed
qed

lemma blocked_copyState: "copyState blocked_space [a, b] = [a, b]"
  by (simp add: copyState_def blocked_dim upt_2)

lemma blocked_satisfiesBounds:
  "satisfiesBounds blocked_space [a, b] \<longleftrightarrow> 0 \<le> a \<and> a \<le> 10 \<and> 0 \<le> b \<and> b \<le> 10"
  by (auto simp: satisfiesBounds_def blocked_dim upt_2 blocked_comps linear_axis_def)

lemma blocked_fix_bounds: "fix_bounds blocked_space [5, - 1] = [5, 0]"
  by (simp add: fix_bounds_def blocked_dim upt_2 blocked_comps linear_axis_def)

lemma blocked_sampleNear:
  "sampleNear lower_bound_rng blocked_space [5, 0] [1 / 10, 1 / 10] 0 [a, b] r = Some ([49 / 10, 0], r)"
proof -
  have 2: "sampleNear lower_bound_rng blocked_space [5, 0] [1 / 10, 1 / 10] (Suc (Suc 0)) [49 / 10, 0] r
            = Some ([49 / 10, 0], r)"
    by (subst sampleNear.simps) (simp add: blocked_dim)
  have 1: "sampleNear lower_bound_rng blocked_space [5, 0] [1 / 10, 1 / 10] (Suc 0) [49 / 10, b] r
            = Some ([49 / 10, 0], r)"
    by (subst sampleNear.simps)
       (simp add: blocked_dim blocked_comps linear_axis_def lower_bound_rng_def 2[unfolded lower_bound_rng_def])
  show ?thesis
    by (subst sampleNear.simps)
       (simp add: blocked_dim blocked_comps linear_axis_def lower_bound_rng_def 1[unfolded lower_bound_rng_def])
qed

lemma blocked_sample_invalid: "\<not> isValid blocked_space [49 / 10, 0]"
  by (simp add: blocked_valid power2_eq_square)

lemma blocked_search_loop:
  "\<exists>st. search_loop lower_bound_rng blocked_space [1 / 10, 1 / 10] attempts [5, 0] i [a, b] r False
         = Some (False, st)"
proof (induction "attempts - i" arbitrary: i a b r)
  case 0
  then show ?case by (subst search_loop.simps) simp
next
  case (Suc d)
  then have lt: "i < attempts" and d: "d = attempts - (i + 1)" by simp_all
  from Suc.hyps(1)[OF d, of "49 / 10" 0 r] lt show ?case
    by (subst search_loop.simps) (simp add: blocked_sampleNear blocked_sample_invalid)
qed

lemma blocked_search:
  "map_option fst (searchValidNearby lower_bound_rng blocked_space [5, - 1] [1 / 10, 1 / 10] attempts r)
     = Some False"
proof -
  have "\<not> isValid blocked_space [5, 0]" by (simp add: blocked_valid)
  moreover obtain st where
    "search_loop lower_bound_rng blocked_space [1 / 10, 1 / 10] attempts [5, 0] 0 [5, 0] r False = Some (False, st)"
    using blocked_search_loop by blast
  ultimately show ?thesis
    by (simp add: searchValidNearby_def blocked_copyState blocked_satisfiesBounds blocked_fix_bounds Let_def)
qed

lemma blocked_fix_start_states:
  "fix_start_states lower_bound_rng blocked_space new_rng [1 / 10, 1 / 10] attempts 0 [Some [5, - 1]] []
     = Some ([Some [5, - 1]], [Unable_to_fix_start_state 0])"
proof -
  have f: "fix_state lower_bound_rng blocked_space [5, - 1] [1 / 10, 1 / 10] attempts (new_rng 0)
            = Some ([5, - 1], True)"
    by (rule fix_state_failure) (simp_all add: blocked_satisfiesBounds blocked_search)
  have "fix_start_states lower_bound_rng blocked_space new_rng [1 / 10, 1 / 10] attempts 0 [Some [5, - 1]] []
        = fix_start_states lower_bound_rng blocked_space new_rng [1 / 10, 1 / 10] attempts (0 + 1)
            ([Some [5, - 1]][0 := Some [5, - 1]]) ([] @ (if True then [Unable_to_fix_start_state 0] else []))"
    by (rule fix_start_states_step_Some[where new_rng=new_rng, OF _ _ f]) simp_all
  also have "\<dots> = Some ([Some [5, - 1]], [Unable_to_fix_start_state 0])"
    by (simp add: fix_start_states_done)
  finally show ?thesis .
qed

lemma blocked_fixInvalidInputStates:
  "fixInvalidInputStates lower_bound_rng blocked_space new_rng
        \<lparr>m_startStates = [Some [5, - 1]], m_goal = OtherGoal,
         m_rhoStartFix = [1 / 10, 1 / 10], m_rhoGoalFix = [1 / 10, 1 / 10]\<rparr>
        [1 / 10, 1 / 10] [1 / 10, 1 / 10] attempts
   = Some (\<lparr>m_startStates = [Some [5, - 1]], m_goal = OtherGoal,
            m_rhoStartFix = [1 / 10, 1 / 10], m_rhoGoalFix = [1 / 10, 1 / 10]\<rparr>,
           [Unable_to_fix_start_state 0])"
  by (simp add: fixInvalidInputStates_def blocked_dim blocked_fix_start_states)

lemma blocked_search_goal:
  "map_option fst (searchValidNearby lower_bound_rng blocked_space [5, 0] [1 / 10, 1 / 10] attempts r)
     = Some False"
proof -
  have "\<not> isValid blocked_space [5, 0]" by (simp add: blocked_valid)
  moreover obtain st where
    "search_loop lower_bound_rng blocked_space [1 / 10, 1 / 10] attempts [5, 0] 0 [5, 0] r False = Some (False, st)"
    using blocked_search_loop by blast
  ultimately show ?thesis
    by (simp add: searchValidNearby_def blocked_copyState blocked_satisfiesBounds Let_def)
qed

lemma blocked_fixInvalidInputStates_goal:
  "fixInvalidInputStates lower_bound_rng blocked_space new_rng
        \<lparr>m_startStates = [Some [5, - 1]], m_goal = GoalState (Some [5, 0]),
         m_rhoStartFix = [1 / 10, 1 / 10], m_rhoGoalFix = [1 / 10, 1 / 10]\<rparr>
        [1 / 10, 1 / 10] [1 / 10, 1 / 10] attempts
   = Some (\<lparr>m_startStates = [Some [5, - 1]], m_goal = GoalState (Some [5, 0]),
            m_rhoStartFix = [1 / 10, 1 / 10], m_rhoGoalFix = [1 / 10, 1 / 10]\<rparr>,
           [Unable_to_fix_start_state 0, Unable_to_fix_goal_state])"
proof -
  have "\<not> isValid blocked_space [5, 0]" by (simp add: blocked_valid)
  then have "fix_state lower_bound_rng blocked_space [5, 0] [1 / 10, 1 / 10] attempts (new_rng (Suc 0))
            = Some ([5, 0], True)"
    by (intro fix_state_failure) (simp_all add: blocked_search_goal)
  then show ?thesis
    by (simp add: fixInvalidInputStates_def blocked_dim blocked_fix_start_states)
qed

subsection \<open>C7: the caller's state after a failed repair\<close>

text \<open>
  Claim C7 says that a start or goal state that cannot be repaired is left projected
  into the bounds. The projection is made on the local state \<^verbatim>\<open>temp\<close>, which is copied
  into the caller's state only when \<^verbatim>\<open>searchValidNearby\<close> succeeds. With the obstacle
  disk around \<open>(5, 0)\<close>, the start state \<open>(5, -1)\<close> is out of bounds, its projection \<open>(5, 0)\<close>
  and the twenty samples \<open>(4.9, 0)\<close> are invalid, and the start state is still \<open>(5, -1)\<close>
  after the call.
\<close>

theorem fixInvalidInputStates_counterexample:
  "map_option fst (searchValidNearby lower_bound_rng blocked_space [5, - 1] [1 / 10, 1 / 10] 20 0) = Some False \<and>
   map_option (\<lambda>r. m_startStates (fst r))
     (fixInvalidInputStates lower_bound_rng blocked_space (\<lambda>k. 0)
        \<lparr>m_startStates = [Some [5, - 1]], m_goal = OtherGoal,
         m_rhoStartFix = [1 / 10, 1 / 10], m_rhoGoalFix = [1 / 10, 1 / 10]\<rparr>
        [1 / 10, 1 / 10] [1 / 10, 1 / 10] 20) = Some [Some [5, - 1]] \<and>
   Some [5, - 1] \<noteq> Some (fix_bounds blocked_space [5, - 1])"
  by (simp add: blocked_search blocked_fixInvalidInputStates blocked_fix_bounds)


text \<open>
  Claim C7, amended. If \<^verbatim>\<open>searchValidNearby\<close> finds no valid state for a start state or
  for the goal state that is out of bounds or invalid, then after
  \<^verbatim>\<open>fixInvalidInputStates\<close> the caller's state is unchanged (it holds its original
  values), and the warning for that state has been issued.
\<close>

theorem fixInvalidInputStates_failure_frame:
  assumes "fixInvalidInputStates rng si new_rng inp rhoStart rhoGoal attempts = Some (inp', warnings)"
  shows "(k < length (m_startStates inp) \<and> m_startStates inp ! k = Some st \<and>
          (\<not> satisfiesBounds si st \<or> \<not> isValid si st) \<and>
          map_option fst (searchValidNearby rng si st rhoStart attempts (new_rng k)) = Some False \<longrightarrow>
            m_startStates inp' ! k = Some st \<and> Unable_to_fix_start_state k \<in> set warnings) \<and>
         (m_goal inp = GoalState (Some g) \<and>
          (\<not> satisfiesBounds si g \<or> \<not> isValid si g) \<and>
          map_option fst (searchValidNearby rng si g rhoGoal attempts (new_rng (length (m_startStates inp))))
            = Some False \<longrightarrow>
            m_goal inp' = GoalState (Some g) \<and> Unable_to_fix_goal_state \<in> set warnings)"
proof -
  from assms obtain startStates' ws where
    fs: "fix_start_states rng si new_rng rhoStart attempts 0 (m_startStates inp) [] = Some (startStates', ws)"
    and st: "m_startStates inp' = startStates'"
    and ws: "set ws \<subseteq> set warnings"
    and goal: "\<And>st. m_goal inp = GoalState (Some st) \<Longrightarrow>
           \<exists>st' warned. fix_state rng si st rhoGoal attempts (new_rng (length (m_startStates inp))) = Some (st', warned) \<and>
             m_goal inp' = GoalState (Some st') \<and> (warned \<longrightarrow> Unable_to_fix_goal_state \<in> set warnings)"
    by (rule fixInvalidInputStates_Some) (rule that, assumption+)
  have "m_startStates inp' ! k = Some st \<and> Unable_to_fix_start_state k \<in> set warnings"
    if k: "k < length (m_startStates inp)" "m_startStates inp ! k = Some st"
      and bad: "\<not> satisfiesBounds si st \<or> \<not> isValid si st"
      and fail: "map_option fst (searchValidNearby rng si st rhoStart attempts (new_rng k)) = Some False"
  proof -
    note f = fix_state_failure[OF bad fail]
    from fix_start_states_nth[OF fs k(1)] k(2) f st have "m_startStates inp' ! k = Some st" by simp
    moreover from fix_start_states_warnings[OF fs _ k f] ws
    have "Unable_to_fix_start_state k \<in> set warnings" by auto
    ultimately show ?thesis ..
  qed
  moreover have "m_goal inp' = GoalState (Some g) \<and> Unable_to_fix_goal_state \<in> set warnings"
    if g: "m_goal inp = GoalState (Some g)"
      and bad: "\<not> satisfiesBounds si g \<or> \<not> isValid si g"
      and fail: "map_option fst (searchValidNearby rng si g rhoGoal attempts (new_rng (length (m_startStates inp))))
            = Some False"
    using goal[OF g] fix_state_failure[OF bad fail] by auto
  ultimately show ?thesis by blast
qed

theorem fixInvalidInputStates_failure_frame_witness:
  "fixInvalidInputStates lower_bound_rng blocked_space (\<lambda>k. 0)
        \<lparr>m_startStates = [Some [5, - 1]], m_goal = GoalState (Some [5, 0]),
         m_rhoStartFix = [1 / 10, 1 / 10], m_rhoGoalFix = [1 / 10, 1 / 10]\<rparr>
        [1 / 10, 1 / 10] [1 / 10, 1 / 10] 20
   = Some (\<lparr>m_startStates = [Some [5, - 1]], m_goal = GoalState (Some [5, 0]),
            m_rhoStartFix = [1 / 10, 1 / 10], m_rhoGoalFix = [1 / 10, 1 / 10]\<rparr>,
           [Unable_to_fix_start_state 0, Unable_to_fix_goal_state]) \<and>
   \<not> satisfiesBounds blocked_space [5, - 1] \<and>
   map_option fst (searchValidNearby lower_bound_rng blocked_space [5, - 1] [1 / 10, 1 / 10] 20 0) = Some False \<and>
   \<not> isValid blocked_space [5, 0] \<and>
   map_option fst (searchValidNearby lower_bound_rng blocked_space [5, 0] [1 / 10, 1 / 10] 20 0) = Some False \<and>
   [Some [5, - 1 :: real]] ! 0 = Some [5, - 1] \<and>
   Unable_to_fix_start_state 0 \<in> set [Unable_to_fix_start_state 0, Unable_to_fix_goal_state] \<and>
   Unable_to_fix_goal_state \<in> set [Unable_to_fix_start_state 0, Unable_to_fix_goal_state]"
  using fixInvalidInputStates_failure_frame[OF blocked_fixInvalidInputStates_goal[of "\<lambda>k. 0" 20],
      of 0 "[5, - 1]" "[5, 0]"]
  by (simp add: blocked_fixInvalidInputStates_goal blocked_satisfiesBounds blocked_search
      blocked_search_goal blocked_valid)

end
